theory Spec2Isabelle
  imports Main "HOL-Library.Multiset"
begin

section \<open>IsoCellSet: a membership bitmap over a two-tier heap\<close>

text \<open>
  The development embeds \<^verbatim>\<open>heap/IsoCellSetInlines.h\<close> of JavaScriptCore. The inline
  functions of that header are translated one by one; the classes they use
  (\<^verbatim>\<open>Bitmap\<close>, \<^verbatim>\<open>HeapCell\<close>, \<^verbatim>\<open>AtomIndices\<close>, \<^verbatim>\<open>BlockDirectory\<close>,
  \<^verbatim>\<open>MarkedBlock::Handle\<close>, \<^verbatim>\<open>PreciseAllocation\<close>) are declared in other headers and
  appear here as the data the inline functions read from them.
\<close>

subsection \<open>Cells and bitmaps\<close>

text \<open>
  A \<^verbatim>\<open>HeapCell*\<close> answers \<^verbatim>\<open>isPreciseAllocation()\<close>; a precise allocation carries its
  \<^verbatim>\<open>lowerTierPreciseIndex()\<close>, every other cell determines
  \<^verbatim>\<open>AtomIndices(cell)\<close>, the pair \<^verbatim>\<open>blockIndex\<close>, \<^verbatim>\<open>atomNumber\<close>.
\<close>

datatype heap_cell =
    PreciseCell nat
  | BlockCell nat nat

text \<open>
  A \<^verbatim>\<open>Bitmap<N>\<close> is read and written bit by bit, at indices below its capacity by
  construction; it is the function from a bit index to the bit stored there.
\<close>

type_synonym bitmap = "nat \<Rightarrow> bool"

definition emptyBitmap :: bitmap where
  "emptyBitmap = (\<lambda>n. False)"

definition Bitmap_get :: "bitmap \<Rightarrow> nat \<Rightarrow> bool" where
  "Bitmap_get bits n = bits n"

text \<open>
  The two read-modify-write operations return the previous value of the bit, as the
  comments of \<^verbatim>\<open>add\<close> and \<^verbatim>\<open>remove\<close> say.
\<close>

definition concurrentTestAndSet :: "bitmap \<Rightarrow> nat \<Rightarrow> bool \<times> bitmap" where
  "concurrentTestAndSet bits n = (bits n, bits(n := True))"

definition concurrentTestAndClear :: "bitmap \<Rightarrow> nat \<Rightarrow> bool \<times> bitmap" where
  "concurrentTestAndClear bits n = (bits n, bits(n := False))"

subsection \<open>The state of a cell set\<close>

text \<open>
  \<^verbatim>\<open>m_bits[blockIndex]\<close> is an owning pointer to the block's bitmap, null until the
  bitmap is created; \<^verbatim>\<open>m_blocksWithBits\<close> has one bit per block;
  \<^verbatim>\<open>m_lowerTierPreciseBits\<close> has one bit per precise allocation index.
\<close>

record iso_cell_set =
  m_bits :: "nat \<Rightarrow> bitmap option"
  m_blocksWithBits :: "nat \<Rightarrow> bool"
  m_lowerTierPreciseBits :: bitmap

text \<open>
  Modelled from the spec: the constructor of the set is in \<^verbatim>\<open>IsoCellSet.cpp\<close>, which is
  not among the sources. The spec says that new slots start empty and that a block's
  bitmap is created on the first add that targets the block.
\<close>

definition IsoCellSet_empty :: iso_cell_set where
  "IsoCellSet_empty =
     \<lparr>m_bits = (\<lambda>blockIndex. None),
      m_blocksWithBits = (\<lambda>blockIndex. False),
      m_lowerTierPreciseBits = emptyBitmap\<rparr>"

text \<open>
  Modelled from the spec: \<^verbatim>\<open>addSlow\<close> is defined in \<^verbatim>\<open>IsoCellSet.cpp\<close>, which is not
  among the sources. The spec (4.2) says: the bitmap is provisioned the first time an add
  targets a block with no bitmap; if another creator has already installed one, that
  bitmap is used; the non-empty flag of the block is set no later than the
  installation; the caller then performs its test-and-set on the installed bitmap.
  The function returns the installed bitmap and the updated set.
\<close>

definition addSlow :: "iso_cell_set \<Rightarrow> nat \<Rightarrow> bitmap \<times> iso_cell_set" where
  "addSlow s blockIndex =
     (case m_bits s blockIndex of
        Some bits \<Rightarrow> (bits, s)
      | None \<Rightarrow>
          (let s1 = s\<lparr>m_blocksWithBits := (m_blocksWithBits s)(blockIndex := True)\<rparr>;
               s2 = s1\<lparr>m_bits := (m_bits s1)(blockIndex \<mapsto> emptyBitmap)\<rparr>
           in (emptyBitmap, s2)))"

subsection \<open>Membership operations\<close>

text \<open>
  \<^verbatim>\<open>IsoCellSet::add\<close>. The bitmap is updated through the pointer held in the slot, so
  the new bitmap is stored back at \<^verbatim>\<open>blockIndex\<close>.
\<close>

definition IsoCellSet_add :: "iso_cell_set \<Rightarrow> heap_cell \<Rightarrow> bool \<times> iso_cell_set" where
  "IsoCellSet_add s cell =
     (case cell of
        PreciseCell lowerTierPreciseIndex \<Rightarrow>
          (let (previous, bits') =
                 concurrentTestAndSet (m_lowerTierPreciseBits s) lowerTierPreciseIndex
           in (\<not> previous, s\<lparr>m_lowerTierPreciseBits := bits'\<rparr>))
      | BlockCell blockIndex atomNumber \<Rightarrow>
          (let (bits, s1) =
                 (case m_bits s blockIndex of
                    None \<Rightarrow> addSlow s blockIndex
                  | Some bits \<Rightarrow> (bits, s));
               (previous, bits') = concurrentTestAndSet bits atomNumber
           in (\<not> previous, s1\<lparr>m_bits := (m_bits s1)(blockIndex \<mapsto> bits')\<rparr>)))"

text \<open>\<^verbatim>\<open>IsoCellSet::remove\<close>.\<close>

definition IsoCellSet_remove :: "iso_cell_set \<Rightarrow> heap_cell \<Rightarrow> bool \<times> iso_cell_set" where
  "IsoCellSet_remove s cell =
     (case cell of
        PreciseCell lowerTierPreciseIndex \<Rightarrow>
          (let (previous, bits') =
                 concurrentTestAndClear (m_lowerTierPreciseBits s) lowerTierPreciseIndex
           in (previous, s\<lparr>m_lowerTierPreciseBits := bits'\<rparr>))
      | BlockCell blockIndex atomNumber \<Rightarrow>
          (case m_bits s blockIndex of
             None \<Rightarrow> (False, s)
           | Some bits \<Rightarrow>
               (let (previous, bits') = concurrentTestAndClear bits atomNumber
                in (previous, s\<lparr>m_bits := (m_bits s)(blockIndex \<mapsto> bits')\<rparr>))))"

text \<open>
  \<^verbatim>\<open>IsoCellSet::contains\<close>, a \<^verbatim>\<open>const\<close> member function: it returns a value and no
  state. The precise branch returns the negation of the bit, as the header has it.
\<close>

definition IsoCellSet_contains :: "iso_cell_set \<Rightarrow> heap_cell \<Rightarrow> bool" where
  "IsoCellSet_contains s cell =
     (case cell of
        PreciseCell lowerTierPreciseIndex \<Rightarrow>
          \<not> Bitmap_get (m_lowerTierPreciseBits s) lowerTierPreciseIndex
      | BlockCell blockIndex atomNumber \<Rightarrow>
          (case m_bits s blockIndex of
             Some bits \<Rightarrow> Bitmap_get bits atomNumber
           | None \<Rightarrow> False))"

text \<open>\<^verbatim>\<open>IsoCellSet::clearLowerTierPreciseCell\<close>; the previous value is dropped.\<close>

definition clearLowerTierPreciseCell :: "iso_cell_set \<Rightarrow> nat \<Rightarrow> iso_cell_set" where
  "clearLowerTierPreciseCell s index =
     s\<lparr>m_lowerTierPreciseBits := snd (concurrentTestAndClear (m_lowerTierPreciseBits s) index)\<rparr>"

text \<open>
  The bit of a cell: the precise-tier bit of a precise allocation, the atom's bit in the
  block's bitmap otherwise, and 0 where the block has no bitmap. This is the membership
  that \<^verbatim>\<open>add\<close> and \<^verbatim>\<open>remove\<close> write and the enumerations read.
\<close>

definition cellBit :: "iso_cell_set \<Rightarrow> heap_cell \<Rightarrow> bool" where
  "cellBit s cell =
     (case cell of
        PreciseCell lowerTierPreciseIndex \<Rightarrow> m_lowerTierPreciseBits s lowerTierPreciseIndex
      | BlockCell blockIndex atomNumber \<Rightarrow>
          (case m_bits s blockIndex of Some bits \<Rightarrow> bits atomNumber | None \<Rightarrow> False))"

subsection \<open>The heap as the enumerations read it\<close>

text \<open>
  \<^verbatim>\<open>MarkedBlock::Handle\<close>, \<^verbatim>\<open>PreciseAllocation\<close>, \<^verbatim>\<open>BlockDirectory\<close> and the subspace
  are declared outside this header. Each is the record of what the enumerations ask of
  it. A block handle gives its \<^verbatim>\<open>index()\<close>, the triples (atom number, cell, kind) that
  its \<^verbatim>\<open>forEachMarkedCell\<close> passes to the functor, the triples that its
  \<^verbatim>\<open>forEachCell\<close> passes, and its \<^verbatim>\<open>isLive(cell)\<close>. The type \<^verbatim>\<open>HeapCell::Kind\<close> is
  the parameter \<open>'k\<close>.
\<close>

record 'k block_handle =
  handle_index :: nat
  markedCells :: "(nat \<times> heap_cell \<times> 'k) list"
  allCells :: "(nat \<times> heap_cell \<times> 'k) list"
  block_isLive :: "heap_cell \<Rightarrow> bool"

text \<open>
  A precise allocation gives \<^verbatim>\<open>lowerTierPreciseIndex()\<close>, \<^verbatim>\<open>isMarked()\<close>,
  \<^verbatim>\<open>isLive()\<close> and \<^verbatim>\<open>cell()\<close>.
\<close>

record precise_allocation =
  lowerTierPreciseIndex :: nat
  allocation_isMarked :: bool
  allocation_isLive :: bool
  allocation_cell :: heap_cell

text \<open>
  The directory gives \<^verbatim>\<open>m_blocks\<close>, the bit view \<^verbatim>\<open>markingNotEmptyBitsView()\<close> with
  one bit per block, and whether \<^verbatim>\<open>assertIsMutatorOrMutatorIsStopped()\<close> holds. The
  subspace gives its directory, \<^verbatim>\<open>attributes().cellKind\<close> and the allocations that
  \<^verbatim>\<open>forEachPreciseAllocation\<close> passes to the functor.
\<close>

record 'k block_directory =
  m_blocks :: "'k block_handle list"
  markingNotEmptyBitsView :: "nat \<Rightarrow> bool"
  isMutatorOrMutatorIsStopped :: bool

record 'k subspace =
  m_directory :: "'k block_directory"
  attributes_cellKind :: 'k
  preciseAllocations :: "precise_allocation list"

subsection \<open>Enumerations\<close>

text \<open>
  An enumeration returns the calls it makes to \<^verbatim>\<open>func\<close>, in order, or the way it
  stops: the assertion of \<^verbatim>\<open>forEachMarkedCell\<close> fails, or a functor reads a bit through
  a null bitmap pointer.
\<close>

datatype crash = AssertionFailure | NullBitmapDereference

text \<open>
  \<^verbatim>\<open>forEachSetBit\<close> on a bit view of \<^verbatim>\<open>numBits\<close> bits: the indices of the set bits,
  ascending. The views of a directory have one bit per block of \<^verbatim>\<open>m_blocks\<close>.
\<close>

definition forEachSetBit :: "nat \<Rightarrow> (nat \<Rightarrow> bool) \<Rightarrow> nat list" where
  "forEachSetBit numBits bits = filter bits [0..<numBits]"

text \<open>The body of the block loop, run on each index in turn; a failure ends the loop.\<close>

fun forEachBlockIndex :: "(nat \<Rightarrow> crash + 'v list) \<Rightarrow> nat list \<Rightarrow> crash + 'v list" where
  "forEachBlockIndex body [] = Inr []"
| "forEachBlockIndex body (blockIndex # rest) =
     (case body blockIndex of
        Inl failure \<Rightarrow> Inl failure
      | Inr visited \<Rightarrow>
          (case forEachBlockIndex body rest of
             Inl failure \<Rightarrow> Inl failure
           | Inr later \<Rightarrow> Inr (visited @ later)))"

text \<open>
  A block passes its triples to the functor of the set. The functor reads
  \<^verbatim>\<open>bits->get(atomNumber)\<close> first, with no null check, so the first triple of a block
  whose bitmap pointer is null stops the enumeration; a block that passes no triple never
  reads the pointer.
\<close>

definition forEachYielded ::
  "bitmap option \<Rightarrow> (bitmap \<Rightarrow> nat \<Rightarrow> heap_cell \<Rightarrow> bool) \<Rightarrow> (nat \<times> heap_cell \<times> 'k) list
     \<Rightarrow> crash + (heap_cell \<times> 'k) list" where
  "forEachYielded bitsPtr condition yielded =
     (case yielded of
        [] \<Rightarrow> Inr []
      | first # rest \<Rightarrow>
          (case bitsPtr of
             None \<Rightarrow> Inl NullBitmapDereference
           | Some bits \<Rightarrow>
               Inr (map (\<lambda>(atomNumber, cell, kind). (cell, kind))
                      (filter (\<lambda>(atomNumber, cell, kind). condition bits atomNumber cell)
                         yielded))))"

text \<open>
  The functor of the precise sweep calls \<^verbatim>\<open>func(allocation->cell(), attributes.cellKind)\<close>
  on the allocations that satisfy its condition.
\<close>

definition forEachPreciseAllocation ::
  "'k subspace \<Rightarrow> (precise_allocation \<Rightarrow> bool) \<Rightarrow> (heap_cell \<times> 'k) list" where
  "forEachPreciseAllocation m_subspace condition =
     map (\<lambda>allocation. (allocation_cell allocation, attributes_cellKind m_subspace))
       (filter condition (preciseAllocations m_subspace))"

text \<open>\<^verbatim>\<open>IsoCellSet::forEachMarkedCell\<close>: the functor of the block loop, then the function.\<close>

definition markedBlockFunctor ::
  "'k block_directory \<Rightarrow> iso_cell_set \<Rightarrow> nat \<Rightarrow> crash + (heap_cell \<times> 'k) list" where
  "markedBlockFunctor directory s blockIndex =
     (let block = m_blocks directory ! blockIndex;
          bits = m_bits s blockIndex
      in forEachYielded bits
           (\<lambda>bits atomNumber cell. Bitmap_get bits atomNumber)
           (markedCells block))"

definition forEachMarkedCell :: "'k subspace \<Rightarrow> iso_cell_set \<Rightarrow> crash + (heap_cell \<times> 'k) list" where
  "forEachMarkedCell m_subspace s =
     (let directory = m_directory m_subspace in
      if \<not> isMutatorOrMutatorIsStopped directory then Inl AssertionFailure
      else
        (case forEachBlockIndex (markedBlockFunctor directory s)
                (forEachSetBit (length (m_blocks directory))
                   (\<lambda>blockIndex. markingNotEmptyBitsView directory blockIndex
                                  \<and> m_blocksWithBits s blockIndex))
         of
           Inl failure \<Rightarrow> Inl failure
         | Inr visited \<Rightarrow>
             Inr (visited @
                  forEachPreciseAllocation m_subspace
                    (\<lambda>allocation.
                       Bitmap_get (m_lowerTierPreciseBits s) (lowerTierPreciseIndex allocation)
                       \<and> allocation_isMarked allocation))))"

text \<open>\<^verbatim>\<open>IsoCellSet::forEachLiveCell\<close>: the functor of the block loop, then the function.\<close>

definition liveBlockFunctor ::
  "'k block_directory \<Rightarrow> iso_cell_set \<Rightarrow> nat \<Rightarrow> crash + (heap_cell \<times> 'k) list" where
  "liveBlockFunctor directory s blockIndex =
     (let block = m_blocks directory ! blockIndex;
          bits = m_bits s blockIndex
      in forEachYielded bits
           (\<lambda>bits atomNumber cell. Bitmap_get bits atomNumber \<and> block_isLive block cell)
           (allCells block))"

definition forEachLiveCell :: "'k subspace \<Rightarrow> iso_cell_set \<Rightarrow> crash + (heap_cell \<times> 'k) list" where
  "forEachLiveCell m_subspace s =
     (let directory = m_directory m_subspace in
        (case forEachBlockIndex (liveBlockFunctor directory s)
                (forEachSetBit (length (m_blocks directory)) (m_blocksWithBits s))
         of
           Inl failure \<Rightarrow> Inl failure
         | Inr visited \<Rightarrow>
             Inr (visited @
                  forEachPreciseAllocation m_subspace
                    (\<lambda>allocation.
                       Bitmap_get (m_lowerTierPreciseBits s) (lowerTierPreciseIndex allocation)
                       \<and> allocation_isLive allocation))))"

subsection \<open>The parallel enumeration\<close>

text \<open>
  \<^verbatim>\<open>forEachMarkedCellInParallel\<close> returns one task; every worker thread calls its
  \<^verbatim>\<open>run\<close>. The task holds the block source and the atomic flag
  \<^verbatim>\<open>m_doneVisitingPreciseAllocations\<close>, which the workers share.
\<close>

text \<open>
  Modelled from the spec: \<^verbatim>\<open>parallelNotEmptyMarkedBlockSource\<close> is defined in
  \<^verbatim>\<open>IsoCellSet.cpp\<close>, which is not among the sources. The spec (4.4, 6) says that it is
  a thread-safe source that hands each block not yet visited to exactly one caller, and
  that the parallel enumeration applies the predicate of the sequential one; so the
  source holds the blocks of the sequential block pass, each once, and a call of its
  \<^verbatim>\<open>run()\<close> takes the first of those left, or returns null when none is left.
\<close>

definition parallelNotEmptyMarkedBlockSource ::
  "'k subspace \<Rightarrow> iso_cell_set \<Rightarrow> 'k block_handle list" where
  "parallelNotEmptyMarkedBlockSource m_subspace s =
     (let directory = m_directory m_subspace in
      map (\<lambda>blockIndex. m_blocks directory ! blockIndex)
        (forEachSetBit (length (m_blocks directory))
           (\<lambda>blockIndex. markingNotEmptyBitsView directory blockIndex
                          \<and> m_blocksWithBits s blockIndex)))"

text \<open>
  Where a worker stands in \<^verbatim>\<open>Task::run\<close>: about to call \<^verbatim>\<open>m_blockSource->run()\<close>;
  holding a block handle and about to pass its marked cells to the functor; out of the
  loop and about to \<^verbatim>\<open>test_and_set\<close> the flag; past the flag, which it found clear,
  and about to sweep the precise allocations; returned at the flag, which it found set;
  returned after the sweep.
\<close>

datatype 'k worker_position =
    CallingBlockSource
  | VisitingBlock "'k block_handle"
  | TestingFlag
  | VisitingPreciseAllocations
  | ReturnedAtFlag
  | ReturnedAfterSweep

text \<open>
  The shared state of the task, and for each worker its position and the calls of
  \<^verbatim>\<open>m_func\<close> it has made on its visitor.
\<close>

record 'k task =
  m_blockSource :: "'k block_handle list"
  m_doneVisitingPreciseAllocations :: bool
  workers :: "('k worker_position \<times> (heap_cell \<times> 'k) list) list"

definition newTask :: "'k subspace \<Rightarrow> iso_cell_set \<Rightarrow> nat \<Rightarrow> 'k task" where
  "newTask m_subspace s numberOfWorkers =
     \<lparr>m_blockSource = parallelNotEmptyMarkedBlockSource m_subspace s,
      m_doneVisitingPreciseAllocations = False,
      workers = replicate numberOfWorkers (CallingBlockSource, [])\<rparr>"

text \<open>
  The body of the \<^verbatim>\<open>while\<close> loop of \<^verbatim>\<open>Task::run\<close> on one handle, and the sweep of
  the precise allocations after the flag.
\<close>

definition taskBlockFunctor ::
  "iso_cell_set \<Rightarrow> 'k block_handle \<Rightarrow> crash + (heap_cell \<times> 'k) list" where
  "taskBlockFunctor s handle =
     (let blockIndex = handle_index handle;
          bits = m_bits s blockIndex
      in forEachYielded bits
           (\<lambda>bits atomNumber cell. Bitmap_get bits atomNumber)
           (markedCells handle))"

definition taskPreciseVisits :: "'k subspace \<Rightarrow> iso_cell_set \<Rightarrow> (heap_cell \<times> 'k) list" where
  "taskPreciseVisits m_subspace s =
     forEachPreciseAllocation m_subspace
       (\<lambda>allocation.
          Bitmap_get (m_lowerTierPreciseBits s) (lowerTierPreciseIndex allocation)
          \<and> allocation_isMarked allocation)"

text \<open>
  One atomic action of worker \<^verbatim>\<open>w\<close>: the call of the block source, the visit of the
  block it holds, the \<^verbatim>\<open>test_and_set\<close> of the flag, or the sweep. A worker that has
  returned, or a number that names no worker, changes nothing.
\<close>

definition workerStep ::
  "'k subspace \<Rightarrow> iso_cell_set \<Rightarrow> nat \<Rightarrow> 'k task \<Rightarrow> crash + 'k task" where
  "workerStep m_subspace s w t =
     (if length (workers t) \<le> w then Inr t
      else
        (case workers t ! w of
           (CallingBlockSource, visited) \<Rightarrow>
             (case m_blockSource t of
                [] \<Rightarrow> Inr (t\<lparr>workers := (workers t)[w := (TestingFlag, visited)]\<rparr>)
              | handle # rest \<Rightarrow>
                  Inr (t\<lparr>m_blockSource := rest,
                         workers := (workers t)[w := (VisitingBlock handle, visited)]\<rparr>))
         | (VisitingBlock handle, visited) \<Rightarrow>
             (case taskBlockFunctor s handle of
                Inl failure \<Rightarrow> Inl failure
              | Inr cells \<Rightarrow>
                  Inr (t\<lparr>workers := (workers t)[w := (CallingBlockSource, visited @ cells)]\<rparr>))
         | (TestingFlag, visited) \<Rightarrow>
             (if m_doneVisitingPreciseAllocations t
              then Inr (t\<lparr>workers := (workers t)[w := (ReturnedAtFlag, visited)]\<rparr>)
              else Inr (t\<lparr>m_doneVisitingPreciseAllocations := True,
                          workers := (workers t)[w := (VisitingPreciseAllocations, visited)]\<rparr>))
         | (VisitingPreciseAllocations, visited) \<Rightarrow>
             Inr (t\<lparr>workers :=
                      (workers t)[w := (ReturnedAfterSweep,
                                        visited @ taskPreciseVisits m_subspace s)]\<rparr>)
         | (ReturnedAtFlag, visited) \<Rightarrow> Inr t
         | (ReturnedAfterSweep, visited) \<Rightarrow> Inr t))"

text \<open>
  A schedule is the order in which the workers act. The runs of the task with a given
  number of workers, under every interleaving, are its runs under every schedule.
\<close>

fun runSchedule ::
  "'k subspace \<Rightarrow> iso_cell_set \<Rightarrow> nat list \<Rightarrow> 'k task \<Rightarrow> crash + 'k task" where
  "runSchedule m_subspace s [] t = Inr t"
| "runSchedule m_subspace s (w # schedule) t =
     (case workerStep m_subspace s w t of
        Inl failure \<Rightarrow> Inl failure
      | Inr t' \<Rightarrow> runSchedule m_subspace s schedule t')"

text \<open>
  What is observed of a run: whether a worker has returned, how many workers did the
  sweep of the precise allocations, and all the calls of the visitor, of all workers.
\<close>

definition hasReturned :: "'k worker_position \<times> (heap_cell \<times> 'k) list \<Rightarrow> bool" where
  "hasReturned worker = (fst worker = ReturnedAtFlag \<or> fst worker = ReturnedAfterSweep)"

definition sweepers :: "'k task \<Rightarrow> nat" where
  "sweepers t = length (filter (\<lambda>worker. fst worker = ReturnedAfterSweep) (workers t))"

definition allVisits :: "'k task \<Rightarrow> (heap_cell \<times> 'k) multiset" where
  "allVisits t = mset (concat (map snd (workers t)))"

subsection \<open>Adds that race\<close>

text \<open>
  Several threads call \<^verbatim>\<open>add\<close> at once. Where a thread stands in \<^verbatim>\<open>add\<close>: about
  to read the slot \<^verbatim>\<open>m_bits[blockIndex]\<close> (for a precise allocation: about to
  test-and-set its precise bit); in the slow path; about to call
  \<^verbatim>\<open>bits->concurrentTestAndSet(atomNumber)\<close>; returned, with its result.
\<close>

text \<open>
  Modelled from the spec: the slow path is \<^verbatim>\<open>addSlow\<close>, defined in
  \<^verbatim>\<open>IsoCellSet.cpp\<close>, which is not among the sources. The spec (4.2) gives it two
  steps. The flag of the block in \<^verbatim>\<open>m_blocksWithBits\<close> is set no later than the
  installation: the thread sets it first. Then the thread constructs a candidate bitmap
  and installs it by compare-and-swap on the slot; if the slot already holds a bitmap, the
  candidate is discarded and the installed bitmap is used.
\<close>

datatype add_position =
    ReadingSlot
  | SettingFlag
  | InstallingBitmap
  | TestingAndSetting
  | Added bool

text \<open>
  The state of a race: the set, the number of bitmaps installed into each slot so far,
  and for each thread its position and the cell it adds.
\<close>

record race =
  raceSet :: iso_cell_set
  installations :: "nat \<Rightarrow> nat"
  adders :: "(add_position \<times> heap_cell) list"

definition newRace :: "iso_cell_set \<Rightarrow> heap_cell list \<Rightarrow> race" where
  "newRace s cells =
     \<lparr>raceSet = s,
      installations = (\<lambda>blockIndex. 0),
      adders = map (\<lambda>cell. (ReadingSlot, cell)) cells\<rparr>"

text \<open>
  One atomic action of thread \<^verbatim>\<open>n\<close>. The bitmap that a thread test-and-sets is
  the one its pointer refers to, the bitmap installed in the slot. A thread that has
  returned, or a number that names no thread, changes nothing.
\<close>

definition adderStep :: "nat \<Rightarrow> race \<Rightarrow> crash + race" where
  "adderStep n r =
     (if length (adders r) \<le> n then Inr r
      else
        (let s = raceSet r; (position, cell) = adders r ! n in
         case cell of
           PreciseCell preciseIndex \<Rightarrow>
             (case position of
                ReadingSlot \<Rightarrow>
                  (let (previous, bits') =
                         concurrentTestAndSet (m_lowerTierPreciseBits s) preciseIndex
                   in Inr (r\<lparr>raceSet := s\<lparr>m_lowerTierPreciseBits := bits'\<rparr>,
                             adders := (adders r)[n := (Added (\<not> previous), cell)]\<rparr>))
              | _ \<Rightarrow> Inr r)
         | BlockCell blockIndex atomNumber \<Rightarrow>
             (case position of
                ReadingSlot \<Rightarrow>
                  (case m_bits s blockIndex of
                     None \<Rightarrow> Inr (r\<lparr>adders := (adders r)[n := (SettingFlag, cell)]\<rparr>)
                   | Some bits \<Rightarrow>
                       Inr (r\<lparr>adders := (adders r)[n := (TestingAndSetting, cell)]\<rparr>))
              | SettingFlag \<Rightarrow>
                  Inr (r\<lparr>raceSet :=
                           s\<lparr>m_blocksWithBits := (m_blocksWithBits s)(blockIndex := True)\<rparr>,
                         adders := (adders r)[n := (InstallingBitmap, cell)]\<rparr>)
              | InstallingBitmap \<Rightarrow>
                  (case m_bits s blockIndex of
                     None \<Rightarrow>
                       Inr (r\<lparr>raceSet := s\<lparr>m_bits := (m_bits s)(blockIndex \<mapsto> emptyBitmap)\<rparr>,
                              installations :=
                                (installations r)(blockIndex := Suc (installations r blockIndex)),
                              adders := (adders r)[n := (TestingAndSetting, cell)]\<rparr>)
                   | Some bits \<Rightarrow>
                       Inr (r\<lparr>adders := (adders r)[n := (TestingAndSetting, cell)]\<rparr>))
              | TestingAndSetting \<Rightarrow>
                  (case m_bits s blockIndex of
                     None \<Rightarrow> Inl NullBitmapDereference
                   | Some bits \<Rightarrow>
                       (let (previous, bits') = concurrentTestAndSet bits atomNumber
                        in Inr (r\<lparr>raceSet := s\<lparr>m_bits := (m_bits s)(blockIndex \<mapsto> bits')\<rparr>,
                                  adders := (adders r)[n := (Added (\<not> previous), cell)]\<rparr>)))
              | Added result \<Rightarrow> Inr r)))"

text \<open>
  A schedule is the order in which the threads act; the interleavings of the threads
  are the schedules.
\<close>

fun raceSchedule :: "nat list \<Rightarrow> race \<Rightarrow> crash + race" where
  "raceSchedule [] r = Inr r"
| "raceSchedule (n # schedule) r =
     (case adderStep n r of
        Inl failure \<Rightarrow> Inl failure
      | Inr r' \<Rightarrow> raceSchedule schedule r')"

definition hasAdded :: "add_position \<times> heap_cell \<Rightarrow> bool" where
  "hasAdded adder = (case fst adder of Added result \<Rightarrow> True | _ \<Rightarrow> False)"

subsection \<open>Invariants of the set and of the heap\<close>

text \<open>Every block whose flag is set in \<^verbatim>\<open>m_blocksWithBits\<close> has a bitmap.\<close>

definition bitmapsPresent :: "iso_cell_set \<Rightarrow> bool" where
  "bitmapsPresent s = (\<forall>blockIndex. m_blocksWithBits s blockIndex \<longrightarrow> m_bits s blockIndex \<noteq> None)"

text \<open>No flag of \<^verbatim>\<open>m_blocksWithBits\<close> is clear while the block's bitmap has a set bit.\<close>

definition noFalseNegative :: "iso_cell_set \<Rightarrow> bool" where
  "noFalseNegative s =
     (\<forall>blockIndex bits atomNumber.
        m_bits s blockIndex = Some bits \<longrightarrow> bits atomNumber \<longrightarrow> m_blocksWithBits s blockIndex)"

text \<open>The flag of a block is set from the moment its bitmap exists.\<close>

definition bitmapsFlagged :: "iso_cell_set \<Rightarrow> bool" where
  "bitmapsFlagged s = (\<forall>blockIndex. m_bits s blockIndex \<noteq> None \<longrightarrow> m_blocksWithBits s blockIndex)"

text \<open>
  The cell that a block passes with an atom number is the cell at that atom of that
  block, and the cell of a precise allocation is the cell with the allocation's index.
\<close>

definition wellFormedSubspace :: "'k subspace \<Rightarrow> bool" where
  "wellFormedSubspace m_subspace =
     ((\<forall>blockIndex < length (m_blocks (m_directory m_subspace)).
         \<forall>(atomNumber, cell, kind) \<in> set (allCells (m_blocks (m_directory m_subspace) ! blockIndex)).
           cell = BlockCell blockIndex atomNumber)
      \<and> (\<forall>allocation \<in> set (preciseAllocations m_subspace).
           allocation_cell allocation = PreciseCell (lowerTierPreciseIndex allocation)))"

text \<open>
  A cell is live when its block passes it to \<^verbatim>\<open>forEachCell\<close> and answers
  \<^verbatim>\<open>isLive(cell)\<close>, or when its precise allocation answers \<^verbatim>\<open>isLive()\<close>.
\<close>

definition cellLive :: "'k subspace \<Rightarrow> heap_cell \<Rightarrow> bool" where
  "cellLive m_subspace cell =
     (case cell of
        PreciseCell n \<Rightarrow>
          (\<exists>allocation \<in> set (preciseAllocations m_subspace).
             lowerTierPreciseIndex allocation = n \<and> allocation_isLive allocation)
      | BlockCell blockIndex atomNumber \<Rightarrow>
          blockIndex < length (m_blocks (m_directory m_subspace))
          \<and> (\<exists>kind. (atomNumber, cell, kind)
                 \<in> set (allCells (m_blocks (m_directory m_subspace) ! blockIndex)))
          \<and> block_isLive (m_blocks (m_directory m_subspace) ! blockIndex) cell)"

text \<open>
  \<^verbatim>\<open>handle->index()\<close> is the position of the handle in \<^verbatim>\<open>m_blocks\<close>.
\<close>

definition wellIndexed :: "'k subspace \<Rightarrow> bool" where
  "wellIndexed m_subspace =
     (\<forall>blockIndex < length (m_blocks (m_directory m_subspace)).
        handle_index (m_blocks (m_directory m_subspace) ! blockIndex) = blockIndex)"

text \<open>
  The heap passes each marked cell once: the marked cells of a block are its cells at
  distinct atoms, and the precise allocations have distinct indices and their own cells.
\<close>

definition yieldsEachCellOnce :: "'k subspace \<Rightarrow> bool" where
  "yieldsEachCellOnce m_subspace =
     ((\<forall>blockIndex < length (m_blocks (m_directory m_subspace)).
         distinct (map fst (markedCells (m_blocks (m_directory m_subspace) ! blockIndex)))
         \<and> (\<forall>(atomNumber, cell, kind)
               \<in> set (markedCells (m_blocks (m_directory m_subspace) ! blockIndex)).
               cell = BlockCell blockIndex atomNumber))
      \<and> distinct (map lowerTierPreciseIndex (preciseAllocations m_subspace))
      \<and> (\<forall>allocation \<in> set (preciseAllocations m_subspace).
           allocation_cell allocation = PreciseCell (lowerTierPreciseIndex allocation)))"

text \<open>
  The invariant of the task. Each worker owes the calls it has made, and those of the
  block it holds or of the sweep it has won; with the blocks left in the source, and the
  sweep while the flag is clear, these add up to the same calls throughout. At most one
  worker is past the flag; no worker has returned at a clear flag; no worker is out of
  the loop while the source has blocks.
\<close>

definition cellsOf :: "iso_cell_set \<Rightarrow> 'k block_handle \<Rightarrow> (heap_cell \<times> 'k) list" where
  "cellsOf s handle = (case taskBlockFunctor s handle of Inl failure \<Rightarrow> [] | Inr cells \<Rightarrow> cells)"

definition owed ::
  "'k subspace \<Rightarrow> iso_cell_set \<Rightarrow> 'k worker_position \<times> (heap_cell \<times> 'k) list
     \<Rightarrow> (heap_cell \<times> 'k) multiset" where
  "owed m_subspace s worker =
     mset (snd worker)
     + (case fst worker of
          VisitingBlock handle \<Rightarrow> mset (cellsOf s handle)
        | VisitingPreciseAllocations \<Rightarrow> mset (taskPreciseVisits m_subspace s)
        | _ \<Rightarrow> {#})"

definition wonFlag :: "'k worker_position \<times> (heap_cell \<times> 'k) list \<Rightarrow> bool" where
  "wonFlag worker = (fst worker = VisitingPreciseAllocations \<or> fst worker = ReturnedAfterSweep)"

definition inBlockLoop :: "'k worker_position \<times> (heap_cell \<times> 'k) list \<Rightarrow> bool" where
  "inBlockLoop worker =
     (case fst worker of CallingBlockSource \<Rightarrow> True | VisitingBlock handle \<Rightarrow> True | _ \<Rightarrow> False)"

definition taskInvariant ::
  "'k subspace \<Rightarrow> iso_cell_set \<Rightarrow> (heap_cell \<times> 'k) multiset \<Rightarrow> 'k task \<Rightarrow> bool" where
  "taskInvariant m_subspace s expected t =
     (sum_list (map (owed m_subspace s) (workers t))
        + mset (concat (map (cellsOf s) (m_blockSource t)))
        + (if m_doneVisitingPreciseAllocations t then {#}
           else mset (taskPreciseVisits m_subspace s)) = expected
      \<and> sum_list (map (\<lambda>worker. if wonFlag worker then 1 else 0) (workers t))
          = (if m_doneVisitingPreciseAllocations t then 1 else (0::nat))
      \<and> (\<not> m_doneVisitingPreciseAllocations t \<longrightarrow>
            (\<forall>worker \<in> set (workers t). fst worker \<noteq> ReturnedAtFlag))
      \<and> (m_blockSource t \<noteq> [] \<longrightarrow> (\<forall>worker \<in> set (workers t). inBlockLoop worker)))"

text \<open>
  A block is visitable when the functor of the task returns on it. In a task whose
  blocks, in the source and in the hands of the workers, are visitable, no worker stops
  at a null bitmap. The effort of a worker bounds the actions it has left before it
  returns.
\<close>

definition visitable :: "iso_cell_set \<Rightarrow> 'k block_handle \<Rightarrow> bool" where
  "visitable s handle = (\<exists>cells. taskBlockFunctor s handle = Inr cells)"

definition blocksVisitable :: "iso_cell_set \<Rightarrow> 'k task \<Rightarrow> bool" where
  "blocksVisitable s t =
     ((\<forall>handle \<in> set (m_blockSource t). visitable s handle)
      \<and> (\<forall>worker \<in> set (workers t).
            case fst worker of VisitingBlock handle \<Rightarrow> visitable s handle | _ \<Rightarrow> True))"

definition effort :: "'k task \<Rightarrow> nat \<Rightarrow> nat" where
  "effort t w =
     (case fst (workers t ! w) of
        CallingBlockSource \<Rightarrow> 2 * length (m_blockSource t) + 3
      | VisitingBlock handle \<Rightarrow> 2 * length (m_blockSource t) + 4
      | TestingFlag \<Rightarrow> 2
      | VisitingPreciseAllocations \<Rightarrow> 1
      | ReturnedAtFlag \<Rightarrow> 0
      | ReturnedAfterSweep \<Rightarrow> 0)"

text \<open>
  The invariant of a race. What a thread has established at its position: in the slow
  path, past the flag, the flag of its block is set; at the test-and-set, the slot of its
  block holds a bitmap; after it, the bit of its cell is set. A set grows when no flag, no
  bitmap and no bit of a cell is lost. In a race the set has grown from the initial one,
  each flag is set once the bitmap exists, and a slot has had one installation exactly
  when it was empty at the start and holds a bitmap now.
\<close>

definition settled :: "iso_cell_set \<Rightarrow> add_position \<times> heap_cell \<Rightarrow> bool" where
  "settled s adder =
     (case snd adder of
        PreciseCell preciseIndex \<Rightarrow>
          (case fst adder of
             ReadingSlot \<Rightarrow> True
           | Added result \<Rightarrow> cellBit s (snd adder)
           | _ \<Rightarrow> False)
      | BlockCell blockIndex atomNumber \<Rightarrow>
          (case fst adder of
             ReadingSlot \<Rightarrow> True
           | SettingFlag \<Rightarrow> True
           | InstallingBitmap \<Rightarrow> m_blocksWithBits s blockIndex
           | TestingAndSetting \<Rightarrow> m_bits s blockIndex \<noteq> None
           | Added result \<Rightarrow> cellBit s (snd adder)))"

definition grows :: "iso_cell_set \<Rightarrow> iso_cell_set \<Rightarrow> bool" where
  "grows s s' =
     ((\<forall>blockIndex. m_blocksWithBits s blockIndex \<longrightarrow> m_blocksWithBits s' blockIndex)
      \<and> (\<forall>blockIndex. m_bits s blockIndex \<noteq> None \<longrightarrow> m_bits s' blockIndex \<noteq> None)
      \<and> (\<forall>cell. cellBit s cell \<longrightarrow> cellBit s' cell))"

definition raceInvariant :: "iso_cell_set \<Rightarrow> race \<Rightarrow> bool" where
  "raceInvariant s0 r =
     (bitmapsFlagged (raceSet r)
      \<and> grows s0 (raceSet r)
      \<and> (\<forall>blockIndex. installations r blockIndex =
            (if m_bits s0 blockIndex = None \<and> m_bits (raceSet r) blockIndex \<noteq> None
             then 1 else 0))
      \<and> (\<forall>adder \<in> set (adders r). settled (raceSet r) adder))"

text \<open>
  The effort of a thread bounds the actions it has left before it returns.
\<close>

definition raceEffort :: "race \<Rightarrow> nat \<Rightarrow> nat" where
  "raceEffort r n =
     (case fst (adders r ! n) of
        ReadingSlot \<Rightarrow> 4
      | SettingFlag \<Rightarrow> 3
      | InstallingBitmap \<Rightarrow> 2
      | TestingAndSetting \<Rightarrow> 1
      | Added result \<Rightarrow> 0)"





subsection \<open>Sequences of operations\<close>

text \<open>A driver for sequences of calls: one operation of the set, and a run of them.\<close>

datatype operation =
    Add heap_cell
  | Remove heap_cell
  | ClearLowerTierPreciseCell nat

fun perform :: "iso_cell_set \<Rightarrow> operation \<Rightarrow> iso_cell_set" where
  "perform s (Add cell) = snd (IsoCellSet_add s cell)"
| "perform s (Remove cell) = snd (IsoCellSet_remove s cell)"
| "perform s (ClearLowerTierPreciseCell index) = clearLowerTierPreciseCell s index"

fun performAll :: "iso_cell_set \<Rightarrow> operation list \<Rightarrow> iso_cell_set" where
  "performAll s [] = s"
| "performAll s (operation # rest) = performAll (perform s operation) rest"

text \<open>The operations that can clear the bit of a cell.\<close>

fun clears :: "heap_cell \<Rightarrow> operation \<Rightarrow> bool" where
  "clears cell (Remove cell') = (cell' = cell)"
| "clears (PreciseCell n) (ClearLowerTierPreciseCell index) = (index = n)"
| "clears cell operation = False"

subsection \<open>The scenario of the spec\<close>

text \<open>
  Two blocks of four atoms and one precise allocation. Atoms 0 and 1 of block 0 and atom
  1 of block 1 are marked, and so is the allocation. Atoms 0, 1, 2 of block 0 and atom 1
  of block 1 are live. The members of the set are atoms 0 and 2 of block 0, atom 1 of
  block 1 and the allocation.
\<close>

definition scenarioBlock0 :: "unit block_handle" where
  "scenarioBlock0 =
     \<lparr>handle_index = 0,
      markedCells = [(0, BlockCell 0 0, ()), (1, BlockCell 0 1, ())],
      allCells = [(0, BlockCell 0 0, ()), (1, BlockCell 0 1, ()),
                  (2, BlockCell 0 2, ()), (3, BlockCell 0 3, ())],
      block_isLive = (\<lambda>cell. cell \<in> set [BlockCell 0 0, BlockCell 0 1, BlockCell 0 2])\<rparr>"

definition scenarioBlock1 :: "unit block_handle" where
  "scenarioBlock1 =
     \<lparr>handle_index = 1,
      markedCells = [(1, BlockCell 1 1, ())],
      allCells = [(0, BlockCell 1 0, ()), (1, BlockCell 1 1, ()),
                  (2, BlockCell 1 2, ()), (3, BlockCell 1 3, ())],
      block_isLive = (\<lambda>cell. cell \<in> set [BlockCell 1 1])\<rparr>"

definition scenarioSubspace :: "unit subspace" where
  "scenarioSubspace =
     \<lparr>m_directory =
        \<lparr>m_blocks = [scenarioBlock0, scenarioBlock1],
         markingNotEmptyBitsView = (\<lambda>blockIndex. blockIndex < 2),
         isMutatorOrMutatorIsStopped = True\<rparr>,
      attributes_cellKind = (),
      preciseAllocations =
        [\<lparr>lowerTierPreciseIndex = 0, allocation_isMarked = True, allocation_isLive = True,
          allocation_cell = PreciseCell 0\<rparr>]\<rparr>"

definition scenarioSet :: iso_cell_set where
  "scenarioSet =
     \<lparr>m_bits = (\<lambda>blockIndex. None)
        (0 \<mapsto> emptyBitmap(0 := True, 2 := True), 1 \<mapsto> emptyBitmap(1 := True)),
      m_blocksWithBits = (\<lambda>blockIndex. False)(0 := True, 1 := True),
      m_lowerTierPreciseBits = emptyBitmap(0 := True)\<rparr>"

text \<open>
  A run of two workers on the scenario: each takes one block, worker 1 wins the flag
  and sweeps, worker 0 returns at the flag.
\<close>

definition scenarioSchedule :: "nat list" where
  "scenarioSchedule = [0, 1, 1, 0, 1, 1, 0, 0, 1, 0]"

definition scenarioReturned :: "unit task" where
  "scenarioReturned =
     \<lparr>m_blockSource = [],
      m_doneVisitingPreciseAllocations = True,
      workers = [(ReturnedAtFlag, [(BlockCell 0 0, ())]),
                 (ReturnedAfterSweep, [(BlockCell 1 1, ()), (PreciseCell 0, ())])]\<rparr>"

subsection \<open>Facts about the membership operations\<close>

lemmas bitmap_defs =
  emptyBitmap_def Bitmap_get_def concurrentTestAndSet_def concurrentTestAndClear_def

lemma add_result: "fst (IsoCellSet_add s cell) = (\<not> cellBit s cell)"
  by (cases cell)
     (simp_all add: IsoCellSet_add_def addSlow_def cellBit_def bitmap_defs
                    split: option.split)

lemma add_sets_bit: "cellBit (snd (IsoCellSet_add s cell)) c = (c = cell \<or> cellBit s c)"
  by (cases cell; cases c)
     (auto simp: IsoCellSet_add_def addSlow_def cellBit_def bitmap_defs
           split: option.split)

lemma remove_result: "fst (IsoCellSet_remove s cell) = cellBit s cell"
  by (cases cell)
     (simp_all add: IsoCellSet_remove_def cellBit_def bitmap_defs split: option.split)

lemma remove_clears_bit:
  "cellBit (snd (IsoCellSet_remove s cell)) c = (c \<noteq> cell \<and> cellBit s c)"
  by (cases cell; cases c)
     (auto simp: IsoCellSet_remove_def cellBit_def bitmap_defs split: option.split)

lemma clearLowerTierPreciseCell_bit:
  "cellBit (clearLowerTierPreciseCell s index) c = (c \<noteq> PreciseCell index \<and> cellBit s c)"
  by (cases c) (auto simp: clearLowerTierPreciseCell_def cellBit_def bitmap_defs)

lemma perform_keeps_bit:
  "cellBit s cell \<Longrightarrow> \<not> clears cell operation \<Longrightarrow> cellBit (perform s operation) cell"
  by (cases operation; cases cell)
     (auto simp: add_sets_bit remove_clears_bit clearLowerTierPreciseCell_bit)

lemma performAll_keeps_bit:
  "cellBit s cell \<Longrightarrow> \<forall>operation \<in> set operations. \<not> clears cell operation
    \<Longrightarrow> cellBit (performAll s operations) cell"
proof (induction operations arbitrary: s)
  case Nil
  then show ?case by simp
next
  case (Cons operation rest)
  from Cons.prems have "cellBit (perform s operation) cell"
    by (simp add: perform_keeps_bit)
  with Cons show ?case by simp
qed

lemma contains_block_cell:
  "IsoCellSet_contains s (BlockCell blockIndex atomNumber)
     = cellBit s (BlockCell blockIndex atomNumber)"
  by (simp add: IsoCellSet_contains_def cellBit_def bitmap_defs split: option.split)

lemma contains_precise_cell:
  "IsoCellSet_contains s (PreciseCell n) = (\<not> cellBit s (PreciseCell n))"
  by (simp add: IsoCellSet_contains_def cellBit_def bitmap_defs)

lemma block_round_trip:
  "\<not> cellBit s (BlockCell b a) \<Longrightarrow>
     \<not> IsoCellSet_contains s (BlockCell b a)
   \<and> IsoCellSet_contains (snd (IsoCellSet_add s (BlockCell b a))) (BlockCell b a)
   \<and> \<not> IsoCellSet_contains
         (snd (IsoCellSet_remove (snd (IsoCellSet_add s (BlockCell b a))) (BlockCell b a)))
         (BlockCell b a)"
  by (simp add: contains_block_cell add_sets_bit remove_clears_bit)

subsection \<open>Facts about the enumerations and the invariants\<close>

lemma forEachBlockIndex_Inr:
  "\<forall>blockIndex \<in> set indices. body blockIndex = Inr (visits blockIndex)
    \<Longrightarrow> forEachBlockIndex body indices = Inr (concat (map visits indices))"
  by (induction indices) simp_all

lemma forEachYielded_Some:
  "forEachYielded (Some bits) condition yielded =
     Inr (map (\<lambda>(atomNumber, cell, kind). (cell, kind))
            (filter (\<lambda>(atomNumber, cell, kind). condition bits atomNumber cell) yielded))"
  by (simp add: forEachYielded_def split: list.split)

lemma set_forEachSetBit:
  "set (forEachSetBit numBits bits) = {blockIndex. blockIndex < numBits \<and> bits blockIndex}"
  by (auto simp: forEachSetBit_def)

lemma in_set_yielded_visits:
  "((cell, kind) \<in> set (map (\<lambda>(atomNumber, cell, kind). (cell, kind))
        (filter (\<lambda>(atomNumber, cell, kind). condition atomNumber cell) yielded)))
   = (\<exists>atomNumber. (atomNumber, cell, kind) \<in> set yielded \<and> condition atomNumber cell)"
  by force

lemma in_set_forEachPreciseAllocation:
  "((cell, kind) \<in> set (forEachPreciseAllocation sub condition))
   = (\<exists>allocation \<in> set (preciseAllocations sub).
        condition allocation \<and> cell = allocation_cell allocation
        \<and> kind = attributes_cellKind sub)"
  by (auto simp: forEachPreciseAllocation_def)

lemma forEachBlockIndex_present:
  assumes present: "\<forall>blockIndex \<in> set indices. m_bits s blockIndex \<noteq> None"
    and body: "\<And>blockIndex. body blockIndex =
                 forEachYielded (m_bits s blockIndex) (condition blockIndex) (yielded blockIndex)"
  shows "\<exists>visited. forEachBlockIndex body indices = Inr visited
     \<and> (\<forall>cell kind. (cell, kind) \<in> set visited \<longleftrightarrow>
           (\<exists>blockIndex \<in> set indices. \<exists>bits atomNumber.
              m_bits s blockIndex = Some bits
              \<and> (atomNumber, cell, kind) \<in> set (yielded blockIndex)
              \<and> condition blockIndex bits atomNumber cell))"
proof -
  let ?visits = "\<lambda>blockIndex.
      map (\<lambda>(atomNumber, cell, kind). (cell, kind))
        (filter (\<lambda>(atomNumber, cell, kind).
                   condition blockIndex (the (m_bits s blockIndex)) atomNumber cell)
           (yielded blockIndex))"
  have "\<forall>blockIndex \<in> set indices. body blockIndex = Inr (?visits blockIndex)"
    using present by (auto simp: body forEachYielded_Some)
  then have result: "forEachBlockIndex body indices = Inr (concat (map ?visits indices))"
    by (rule forEachBlockIndex_Inr)
  have "(cell, kind) \<in> set (concat (map ?visits indices)) \<longleftrightarrow>
          (\<exists>blockIndex \<in> set indices. \<exists>bits atomNumber.
              m_bits s blockIndex = Some bits
              \<and> (atomNumber, cell, kind) \<in> set (yielded blockIndex)
              \<and> condition blockIndex bits atomNumber cell)" for cell kind
  proof -
    have "(cell, kind) \<in> set (concat (map ?visits indices)) \<longleftrightarrow>
            (\<exists>blockIndex \<in> set indices. (cell, kind) \<in> set (?visits blockIndex))"
      by simp
    also have "\<dots> \<longleftrightarrow> (\<exists>blockIndex \<in> set indices. \<exists>atomNumber.
              (atomNumber, cell, kind) \<in> set (yielded blockIndex)
              \<and> condition blockIndex (the (m_bits s blockIndex)) atomNumber cell)"
      by (simp only: in_set_yielded_visits)
    also have "\<dots> \<longleftrightarrow> (\<exists>blockIndex \<in> set indices. \<exists>bits atomNumber.
              m_bits s blockIndex = Some bits
              \<and> (atomNumber, cell, kind) \<in> set (yielded blockIndex)
              \<and> condition blockIndex bits atomNumber cell)"
      using present by fastforce
    finally show ?thesis .
  qed
  with result show ?thesis by blast
qed

lemma forEachMarkedCell_visits:
  assumes stopped: "isMutatorOrMutatorIsStopped (m_directory sub)"
    and present: "bitmapsPresent s"
  shows "\<exists>visited. forEachMarkedCell sub s = Inr visited
     \<and> (\<forall>cell kind. (cell, kind) \<in> set visited \<longleftrightarrow>
          (\<exists>blockIndex bits atomNumber.
              blockIndex < length (m_blocks (m_directory sub))
              \<and> markingNotEmptyBitsView (m_directory sub) blockIndex
              \<and> m_blocksWithBits s blockIndex
              \<and> m_bits s blockIndex = Some bits
              \<and> (atomNumber, cell, kind)
                  \<in> set (markedCells (m_blocks (m_directory sub) ! blockIndex))
              \<and> Bitmap_get bits atomNumber)
          \<or> (\<exists>allocation \<in> set (preciseAllocations sub).
                Bitmap_get (m_lowerTierPreciseBits s) (lowerTierPreciseIndex allocation)
                \<and> allocation_isMarked allocation
                \<and> cell = allocation_cell allocation
                \<and> kind = attributes_cellKind sub))"
proof -
  let ?indices = "forEachSetBit (length (m_blocks (m_directory sub)))
      (\<lambda>blockIndex. markingNotEmptyBitsView (m_directory sub) blockIndex
                     \<and> m_blocksWithBits s blockIndex)"
  have "\<forall>blockIndex \<in> set ?indices. m_bits s blockIndex \<noteq> None"
    using present by (simp add: set_forEachSetBit bitmapsPresent_def)
  moreover have "markedBlockFunctor (m_directory sub) s blockIndex =
      forEachYielded (m_bits s blockIndex)
        (\<lambda>bits atomNumber cell. Bitmap_get bits atomNumber)
        (markedCells (m_blocks (m_directory sub) ! blockIndex))" for blockIndex
    by (simp add: markedBlockFunctor_def Let_def)
  ultimately obtain visited where
    blocks: "forEachBlockIndex (markedBlockFunctor (m_directory sub) s) ?indices = Inr visited"
    and visited: "\<And>cell kind. (cell, kind) \<in> set visited \<longleftrightarrow>
           (\<exists>blockIndex \<in> set ?indices. \<exists>bits atomNumber.
              m_bits s blockIndex = Some bits
              \<and> (atomNumber, cell, kind)
                  \<in> set (markedCells (m_blocks (m_directory sub) ! blockIndex))
              \<and> Bitmap_get bits atomNumber)"
    using forEachBlockIndex_present
      [of ?indices s "markedBlockFunctor (m_directory sub) s"
          "\<lambda>blockIndex bits atomNumber cell. Bitmap_get bits atomNumber"
          "\<lambda>blockIndex. markedCells (m_blocks (m_directory sub) ! blockIndex)"]
    by auto
  have "forEachMarkedCell sub s =
      Inr (visited @ forEachPreciseAllocation sub
             (\<lambda>allocation.
                Bitmap_get (m_lowerTierPreciseBits s) (lowerTierPreciseIndex allocation)
                \<and> allocation_isMarked allocation))"
    using stopped blocks by (simp add: forEachMarkedCell_def Let_def)
  then show ?thesis
    by (auto simp: visited in_set_forEachPreciseAllocation set_forEachSetBit)
qed

lemma forEachLiveCell_visits:
  assumes present: "bitmapsPresent s"
  shows "\<exists>visited. forEachLiveCell sub s = Inr visited
     \<and> (\<forall>cell kind. (cell, kind) \<in> set visited \<longleftrightarrow>
          (\<exists>blockIndex bits atomNumber.
              blockIndex < length (m_blocks (m_directory sub))
              \<and> m_blocksWithBits s blockIndex
              \<and> m_bits s blockIndex = Some bits
              \<and> (atomNumber, cell, kind)
                  \<in> set (allCells (m_blocks (m_directory sub) ! blockIndex))
              \<and> Bitmap_get bits atomNumber
              \<and> block_isLive (m_blocks (m_directory sub) ! blockIndex) cell)
          \<or> (\<exists>allocation \<in> set (preciseAllocations sub).
                Bitmap_get (m_lowerTierPreciseBits s) (lowerTierPreciseIndex allocation)
                \<and> allocation_isLive allocation
                \<and> cell = allocation_cell allocation
                \<and> kind = attributes_cellKind sub))"
proof -
  let ?indices = "forEachSetBit (length (m_blocks (m_directory sub))) (m_blocksWithBits s)"
  have "\<forall>blockIndex \<in> set ?indices. m_bits s blockIndex \<noteq> None"
    using present by (simp add: set_forEachSetBit bitmapsPresent_def)
  moreover have "liveBlockFunctor (m_directory sub) s blockIndex =
      forEachYielded (m_bits s blockIndex)
        (\<lambda>bits atomNumber cell. Bitmap_get bits atomNumber
            \<and> block_isLive (m_blocks (m_directory sub) ! blockIndex) cell)
        (allCells (m_blocks (m_directory sub) ! blockIndex))" for blockIndex
    by (simp add: liveBlockFunctor_def Let_def)
  ultimately obtain visited where
    blocks: "forEachBlockIndex (liveBlockFunctor (m_directory sub) s) ?indices = Inr visited"
    and visited: "\<And>cell kind. (cell, kind) \<in> set visited \<longleftrightarrow>
           (\<exists>blockIndex \<in> set ?indices. \<exists>bits atomNumber.
              m_bits s blockIndex = Some bits
              \<and> (atomNumber, cell, kind)
                  \<in> set (allCells (m_blocks (m_directory sub) ! blockIndex))
              \<and> Bitmap_get bits atomNumber
              \<and> block_isLive (m_blocks (m_directory sub) ! blockIndex) cell)"
    using forEachBlockIndex_present
      [of ?indices s "liveBlockFunctor (m_directory sub) s"
          "\<lambda>blockIndex bits atomNumber cell. Bitmap_get bits atomNumber
             \<and> block_isLive (m_blocks (m_directory sub) ! blockIndex) cell"
          "\<lambda>blockIndex. allCells (m_blocks (m_directory sub) ! blockIndex)"]
    by auto
  have "forEachLiveCell sub s =
      Inr (visited @ forEachPreciseAllocation sub
             (\<lambda>allocation.
                Bitmap_get (m_lowerTierPreciseBits s) (lowerTierPreciseIndex allocation)
                \<and> allocation_isLive allocation))"
    using blocks by (simp add: forEachLiveCell_def Let_def)
  then show ?thesis
    by (auto simp: visited in_set_forEachPreciseAllocation set_forEachSetBit)
qed

lemma forEachLiveCell_members:
  assumes wf: "wellFormedSubspace sub"
    and present: "bitmapsPresent s"
    and conservative: "noFalseNegative s"
  shows "\<exists>visited. forEachLiveCell sub s = Inr visited
     \<and> (\<forall>cell. cell \<in> fst ` set visited \<longleftrightarrow> cellBit s cell \<and> cellLive sub cell)"
proof -
  from forEachLiveCell_visits [OF present, of sub]
  obtain visited where
    result: "forEachLiveCell sub s = Inr visited"
    and visited: "\<And>cell kind. (cell, kind) \<in> set visited \<longleftrightarrow>
          (\<exists>blockIndex bits atomNumber.
              blockIndex < length (m_blocks (m_directory sub))
              \<and> m_blocksWithBits s blockIndex
              \<and> m_bits s blockIndex = Some bits
              \<and> (atomNumber, cell, kind)
                  \<in> set (allCells (m_blocks (m_directory sub) ! blockIndex))
              \<and> Bitmap_get bits atomNumber
              \<and> block_isLive (m_blocks (m_directory sub) ! blockIndex) cell)
          \<or> (\<exists>allocation \<in> set (preciseAllocations sub).
                Bitmap_get (m_lowerTierPreciseBits s) (lowerTierPreciseIndex allocation)
                \<and> allocation_isLive allocation
                \<and> cell = allocation_cell allocation
                \<and> kind = attributes_cellKind sub)"
    by blast
  have blockCells: "cell = BlockCell blockIndex atomNumber"
    if "blockIndex < length (m_blocks (m_directory sub))"
      and "(atomNumber, cell, kind) \<in> set (allCells (m_blocks (m_directory sub) ! blockIndex))"
    for blockIndex atomNumber cell kind
    using wf that by (fastforce simp: wellFormedSubspace_def)
  have preciseCells: "allocation_cell allocation = PreciseCell (lowerTierPreciseIndex allocation)"
    if "allocation \<in> set (preciseAllocations sub)" for allocation
    using wf that by (simp add: wellFormedSubspace_def)
  have "cell \<in> fst ` set visited \<longleftrightarrow> cellBit s cell \<and> cellLive sub cell" for cell
  proof (cases cell)
    case (PreciseCell n)
    have "cell \<in> fst ` set visited \<longleftrightarrow> (\<exists>kind. (cell, kind) \<in> set visited)"
      by force
    also have "\<dots> \<longleftrightarrow> (\<exists>allocation \<in> set (preciseAllocations sub).
                Bitmap_get (m_lowerTierPreciseBits s) (lowerTierPreciseIndex allocation)
                \<and> allocation_isLive allocation
                \<and> cell = allocation_cell allocation)"
      using PreciseCell blockCells by (auto simp: visited dest: blockCells)
    also have "\<dots> \<longleftrightarrow> cellBit s cell \<and> cellLive sub cell"
      using PreciseCell preciseCells
      by (auto simp: cellBit_def cellLive_def Bitmap_get_def)
    finally show ?thesis .
  next
    case (BlockCell blockIndex atomNumber)
    have "cell \<in> fst ` set visited \<longleftrightarrow> (\<exists>kind. (cell, kind) \<in> set visited)"
      by force
    also have "\<dots> \<longleftrightarrow> (\<exists>kind bits.
              blockIndex < length (m_blocks (m_directory sub))
              \<and> m_blocksWithBits s blockIndex
              \<and> m_bits s blockIndex = Some bits
              \<and> (atomNumber, cell, kind)
                  \<in> set (allCells (m_blocks (m_directory sub) ! blockIndex))
              \<and> Bitmap_get bits atomNumber
              \<and> block_isLive (m_blocks (m_directory sub) ! blockIndex) cell)"
      using BlockCell by (auto simp: visited dest: blockCells preciseCells)
    also have "\<dots> \<longleftrightarrow> cellBit s cell \<and> cellLive sub cell"
      using BlockCell conservative
      by (auto simp: cellBit_def cellLive_def Bitmap_get_def noFalseNegative_def
               split: option.splits)
    finally show ?thesis .
  qed
  with result show ?thesis by blast
qed


lemma bitmapsPresent_perform: "bitmapsPresent s \<Longrightarrow> bitmapsPresent (perform s operation)"
proof (cases operation)
  case (Add cell)
  assume "bitmapsPresent s"
  then show ?thesis
    unfolding Add
    by (cases cell)
       (auto simp: bitmapsPresent_def IsoCellSet_add_def addSlow_def bitmap_defs
             split: option.splits)
next
  case (Remove cell)
  assume "bitmapsPresent s"
  then show ?thesis
    unfolding Remove
    by (cases cell)
       (auto simp: bitmapsPresent_def IsoCellSet_remove_def bitmap_defs split: option.splits)
next
  case (ClearLowerTierPreciseCell index)
  assume "bitmapsPresent s"
  then show ?thesis
    unfolding ClearLowerTierPreciseCell
    by (simp add: bitmapsPresent_def clearLowerTierPreciseCell_def)
qed


lemma bitmapsFlagged_empty: "bitmapsFlagged IsoCellSet_empty"
  by (simp add: bitmapsFlagged_def IsoCellSet_empty_def)

lemma bitmapsFlagged_perform: "bitmapsFlagged s \<Longrightarrow> bitmapsFlagged (perform s operation)"
proof (cases operation)
  case (Add cell)
  assume "bitmapsFlagged s"
  then show ?thesis
    unfolding Add
    by (cases cell)
       (auto simp: bitmapsFlagged_def IsoCellSet_add_def addSlow_def bitmap_defs
             split: option.splits if_splits)
next
  case (Remove cell)
  assume "bitmapsFlagged s"
  then show ?thesis
    unfolding Remove
    by (cases cell)
       (auto simp: bitmapsFlagged_def IsoCellSet_remove_def bitmap_defs
             split: option.splits if_splits)
next
  case (ClearLowerTierPreciseCell index)
  assume "bitmapsFlagged s"
  then show ?thesis
    unfolding ClearLowerTierPreciseCell
    by (simp add: bitmapsFlagged_def clearLowerTierPreciseCell_def)
qed

lemma bitmapsFlagged_performAll:
  "bitmapsFlagged s \<Longrightarrow> bitmapsFlagged (performAll s operations)"
  by (induction operations arbitrary: s) (simp_all add: bitmapsFlagged_perform)

lemma bitmapsFlagged_noFalseNegative: "bitmapsFlagged s \<Longrightarrow> noFalseNegative s"
  by (auto simp: bitmapsFlagged_def noFalseNegative_def)

lemmas scenario_defs =
  scenarioBlock0_def scenarioBlock1_def scenarioSubspace_def scenarioSet_def

lemma scenarioSet_added:
  "performAll IsoCellSet_empty
     [Add (BlockCell 0 0), Add (BlockCell 0 2), Add (BlockCell 1 1), Add (PreciseCell 0)]
   = scenarioSet"
  by (simp add: IsoCellSet_add_def addSlow_def IsoCellSet_empty_def scenarioSet_def
                bitmap_defs fun_upd_twist)

lemma upt_2: "[0..<2] = [0, Suc 0]"
  by (simp add: upt_rec numeral_2_eq_2)

lemma scenario_marked:
  "forEachMarkedCell scenarioSubspace scenarioSet
     = Inr [(BlockCell 0 0, ()), (BlockCell 1 1, ()), (PreciseCell 0, ())]"
  by (simp add: forEachMarkedCell_def markedBlockFunctor_def forEachSetBit_def
                forEachYielded_def forEachPreciseAllocation_def scenario_defs bitmap_defs
                upt_2 Let_def)

lemma scenario_live:
  "forEachLiveCell scenarioSubspace scenarioSet
     = Inr [(BlockCell 0 0, ()), (BlockCell 0 2, ()), (BlockCell 1 1, ()), (PreciseCell 0, ())]"
  by (simp add: forEachLiveCell_def liveBlockFunctor_def forEachSetBit_def
                forEachYielded_def forEachPreciseAllocation_def scenario_defs bitmap_defs
                upt_2 Let_def)

lemma scenario_stopped: "isMutatorOrMutatorIsStopped (m_directory scenarioSubspace)"
  by (simp add: scenarioSubspace_def)

lemma scenario_bitmapsPresent: "bitmapsPresent scenarioSet"
  by (simp add: bitmapsPresent_def scenarioSet_def)

lemma scenario_wellFormed: "wellFormedSubspace scenarioSubspace"
  by (simp add: wellFormedSubspace_def scenarioSubspace_def scenarioBlock0_def
                scenarioBlock1_def less_Suc_eq numeral_2_eq_2)

lemma scenario_noFalseNegative: "noFalseNegative scenarioSet"
  by (simp add: noFalseNegative_def scenarioSet_def)

lemma perform_ignores_flags:
  "IsoCellSet_contains (s\<lparr>m_blocksWithBits := flags\<rparr>) cell = IsoCellSet_contains s cell"
  "fst (IsoCellSet_add (s\<lparr>m_blocksWithBits := flags\<rparr>) cell) = fst (IsoCellSet_add s cell)"
  "fst (IsoCellSet_remove (s\<lparr>m_blocksWithBits := flags\<rparr>) cell) = fst (IsoCellSet_remove s cell)"
  by (cases cell;
      simp add: IsoCellSet_contains_def IsoCellSet_add_def IsoCellSet_remove_def addSlow_def
                bitmap_defs split: option.split)+

lemma false_positive_after_remove:
  "m_blocksWithBits (performAll IsoCellSet_empty [Add (BlockCell 0 1), Remove (BlockCell 0 1)]) 0
   \<and> (\<exists>bits.
         m_bits (performAll IsoCellSet_empty [Add (BlockCell 0 1), Remove (BlockCell 0 1)]) 0
           = Some bits
         \<and> (\<forall>atomNumber. \<not> bits atomNumber))"
  by (simp add: IsoCellSet_add_def IsoCellSet_remove_def addSlow_def IsoCellSet_empty_def
                bitmap_defs)



subsection \<open>Facts about the parallel enumeration\<close>

lemma sum_list_update:
  fixes f :: "'a \<Rightarrow> 'b::comm_monoid_add"
  shows "w < length xs \<Longrightarrow>
    sum_list (map f (xs[w := y])) + f (xs ! w) = sum_list (map f xs) + f y"
proof (induction xs arbitrary: w)
  case Nil
  then show ?case by simp
next
  case (Cons x xs)
  show ?case
  proof (cases w)
    case 0
    then show ?thesis by (simp add: ac_simps)
  next
    case (Suc v)
    with Cons.prems have "v < length xs" by simp
    from Cons.IH [OF this] Suc show ?thesis
      by (simp add: ac_simps)
  qed
qed

lemma workerStep_cases:
  assumes "workerStep sub s w t = Inr t'"
  obtains
    (idle) "t' = t"
  | (claim) visited handle rest where
      "w < length (workers t)" "workers t ! w = (CallingBlockSource, visited)"
      "m_blockSource t = handle # rest"
      "t' = t\<lparr>m_blockSource := rest,
               workers := (workers t)[w := (VisitingBlock handle, visited)]\<rparr>"
  | (drained) visited where
      "w < length (workers t)" "workers t ! w = (CallingBlockSource, visited)"
      "m_blockSource t = []"
      "t' = t\<lparr>workers := (workers t)[w := (TestingFlag, visited)]\<rparr>"
  | (visit) visited handle cells where
      "w < length (workers t)" "workers t ! w = (VisitingBlock handle, visited)"
      "taskBlockFunctor s handle = Inr cells"
      "t' = t\<lparr>workers := (workers t)[w := (CallingBlockSource, visited @ cells)]\<rparr>"
  | (lost) visited where
      "w < length (workers t)" "workers t ! w = (TestingFlag, visited)"
      "m_doneVisitingPreciseAllocations t"
      "t' = t\<lparr>workers := (workers t)[w := (ReturnedAtFlag, visited)]\<rparr>"
  | (won) visited where
      "w < length (workers t)" "workers t ! w = (TestingFlag, visited)"
      "\<not> m_doneVisitingPreciseAllocations t"
      "t' = t\<lparr>m_doneVisitingPreciseAllocations := True,
               workers := (workers t)[w := (VisitingPreciseAllocations, visited)]\<rparr>"
  | (sweep) visited where
      "w < length (workers t)" "workers t ! w = (VisitingPreciseAllocations, visited)"
      "t' = t\<lparr>workers :=
               (workers t)[w := (ReturnedAfterSweep, visited @ taskPreciseVisits sub s)]\<rparr>"
proof (cases "length (workers t) \<le> w")
  case True
  with assms have "t' = t" by (simp add: workerStep_def)
  then show ?thesis by (rule idle)
next
  case False
  then have w: "w < length (workers t)" by simp
  obtain position visited where worker: "workers t ! w = (position, visited)"
    by (cases "workers t ! w")
  show ?thesis
  proof (cases position)
    case CallingBlockSource
    show ?thesis
    proof (cases "m_blockSource t")
      case Nil
      with assms False worker CallingBlockSource
      have "t' = t\<lparr>workers := (workers t)[w := (TestingFlag, visited)]\<rparr>"
        by (simp add: workerStep_def)
      with w worker CallingBlockSource Nil show ?thesis by (intro drained) simp_all
    next
      case (Cons handle rest)
      with assms False worker CallingBlockSource
      have "t' = t\<lparr>m_blockSource := rest,
               workers := (workers t)[w := (VisitingBlock handle, visited)]\<rparr>"
        by (simp add: workerStep_def)
      with w worker CallingBlockSource Cons show ?thesis by (intro claim) simp_all
    qed
  next
    case (VisitingBlock handle)
    with assms False worker obtain cells where
      "taskBlockFunctor s handle = Inr cells"
      "t' = t\<lparr>workers := (workers t)[w := (CallingBlockSource, visited @ cells)]\<rparr>"
      by (auto simp: workerStep_def split: sum.splits)
    with w worker VisitingBlock show ?thesis by (intro visit) simp_all
  next
    case TestingFlag
    show ?thesis
    proof (cases "m_doneVisitingPreciseAllocations t")
      case True
      with assms False worker TestingFlag
      have "t' = t\<lparr>workers := (workers t)[w := (ReturnedAtFlag, visited)]\<rparr>"
        by (simp add: workerStep_def)
      with w worker TestingFlag True show ?thesis by (intro lost) simp_all
    next
      case notDone: False
      with assms False worker TestingFlag
      have "t' = t\<lparr>m_doneVisitingPreciseAllocations := True,
               workers := (workers t)[w := (VisitingPreciseAllocations, visited)]\<rparr>"
        by (simp add: workerStep_def)
      with w worker TestingFlag notDone show ?thesis by (intro won) simp_all
    qed
  next
    case VisitingPreciseAllocations
    with assms False worker
    have "t' = t\<lparr>workers :=
               (workers t)[w := (ReturnedAfterSweep, visited @ taskPreciseVisits sub s)]\<rparr>"
      by (simp add: workerStep_def)
    with w worker VisitingPreciseAllocations show ?thesis by (intro sweep) simp_all
  next
    case ReturnedAtFlag
    with assms False worker have "t' = t" by (simp add: workerStep_def)
    then show ?thesis by (rule idle)
  next
    case ReturnedAfterSweep
    with assms False worker have "t' = t" by (simp add: workerStep_def)
    then show ?thesis by (rule idle)
  qed
qed

lemma taskInvariant_step:
  assumes inv: "taskInvariant sub s expected t"
    and step: "workerStep sub s w t = Inr t'"
  shows "taskInvariant sub s expected t'"
  using step
proof (cases rule: workerStep_cases)
  case idle
  with inv show ?thesis by simp
next
  case (claim visited handle rest)
  from sum_list_update [OF claim(1), of "owed sub s" "(VisitingBlock handle, visited)"]
       sum_list_update [OF claim(1), of "\<lambda>worker. if wonFlag worker then 1 else (0::nat)"
                          "(VisitingBlock handle, visited)"]
       nth_mem [OF claim(1)] inv claim
  show ?thesis
    by (auto simp: taskInvariant_def owed_def wonFlag_def inBlockLoop_def
             dest!: set_update_subset_insert [THEN subsetD])
next
  case (drained visited)
  from sum_list_update [OF drained(1), of "owed sub s" "(TestingFlag, visited)"]
       sum_list_update [OF drained(1), of "\<lambda>worker. if wonFlag worker then 1 else (0::nat)"
                          "(TestingFlag, visited)"]
       nth_mem [OF drained(1)] inv drained
  show ?thesis
    by (auto simp: taskInvariant_def owed_def wonFlag_def inBlockLoop_def
             dest!: set_update_subset_insert [THEN subsetD])
next
  case (visit visited handle cells)
  from sum_list_update [OF visit(1), of "owed sub s" "(CallingBlockSource, visited @ cells)"]
       sum_list_update [OF visit(1), of "\<lambda>worker. if wonFlag worker then 1 else (0::nat)"
                          "(CallingBlockSource, visited @ cells)"]
       nth_mem [OF visit(1)] inv visit
  show ?thesis
    by (auto simp: taskInvariant_def owed_def wonFlag_def inBlockLoop_def cellsOf_def
             dest!: set_update_subset_insert [THEN subsetD])
next
  case (lost visited)
  from sum_list_update [OF lost(1), of "owed sub s" "(ReturnedAtFlag, visited)"]
       sum_list_update [OF lost(1), of "\<lambda>worker. if wonFlag worker then 1 else (0::nat)"
                          "(ReturnedAtFlag, visited)"]
       nth_mem [OF lost(1)] inv lost
  show ?thesis
    by (auto simp: taskInvariant_def owed_def wonFlag_def inBlockLoop_def
             dest!: set_update_subset_insert [THEN subsetD])
next
  case (won visited)
  from sum_list_update [OF won(1), of "owed sub s" "(VisitingPreciseAllocations, visited)"]
       sum_list_update [OF won(1), of "\<lambda>worker. if wonFlag worker then 1 else (0::nat)"
                          "(VisitingPreciseAllocations, visited)"]
       nth_mem [OF won(1)] inv won
  show ?thesis
    by (auto simp: taskInvariant_def owed_def wonFlag_def inBlockLoop_def
             dest!: set_update_subset_insert [THEN subsetD])
next
  case (sweep visited)
  from sum_list_update [OF sweep(1), of "owed sub s"
                          "(ReturnedAfterSweep, visited @ taskPreciseVisits sub s)"]
       sum_list_update [OF sweep(1), of "\<lambda>worker. if wonFlag worker then 1 else (0::nat)"
                          "(ReturnedAfterSweep, visited @ taskPreciseVisits sub s)"]
       nth_mem [OF sweep(1)] inv sweep
  show ?thesis
    by (auto simp: taskInvariant_def owed_def wonFlag_def inBlockLoop_def
             dest!: set_update_subset_insert [THEN subsetD])
qed

lemma taskInvariant_run:
  "taskInvariant sub s expected t \<Longrightarrow> runSchedule sub s schedule t = Inr t'
    \<Longrightarrow> taskInvariant sub s expected t'"
proof (induction schedule arbitrary: t)
  case Nil
  then show ?case by simp
next
  case (Cons w schedule)
  from Cons.prems(2) obtain t1 where
    first: "workerStep sub s w t = Inr t1" and rest: "runSchedule sub s schedule t1 = Inr t'"
    by (auto split: sum.splits)
  from taskInvariant_step [OF Cons.prems(1) first] rest show ?case
    by (rule Cons.IH)
qed

lemma sum_list_replicate_zero:
  fixes f :: "'a \<Rightarrow> 'b::comm_monoid_add"
  shows "f x = 0 \<Longrightarrow> sum_list (map f (replicate n x)) = 0"
  by (induction n) simp_all

lemma taskInvariant_newTask:
  "taskInvariant sub s
     (mset (concat (map (cellsOf s) (parallelNotEmptyMarkedBlockSource sub s)))
      + mset (taskPreciseVisits sub s))
     (newTask sub s numberOfWorkers)"
proof -
  let ?idle = "(CallingBlockSource, []) :: 'a worker_position \<times> (heap_cell \<times> 'a) list"
  let ?t = "newTask sub s numberOfWorkers"
  have idle: "workers ?t = replicate numberOfWorkers ?idle"
    and source: "m_blockSource ?t = parallelNotEmptyMarkedBlockSource sub s"
    and flag: "\<not> m_doneVisitingPreciseAllocations ?t"
    by (simp_all add: newTask_def)
  have "owed sub s ?idle = {#}"
    by (simp add: owed_def)
  then have owes: "sum_list (map (owed sub s) (workers ?t)) = {#}"
    unfolding idle by (rule sum_list_replicate_zero)
  have "(if wonFlag ?idle then 1 else (0::nat)) = 0"
    by (simp add: wonFlag_def)
  then have winners:
    "sum_list (map (\<lambda>worker. if wonFlag worker then 1 else (0::nat)) (workers ?t)) = 0"
    unfolding idle by (rule sum_list_replicate_zero)
  have looping: "inBlockLoop worker \<and> fst worker \<noteq> ReturnedAtFlag"
    if "worker \<in> set (workers ?t)" for worker
    using that unfolding idle by (auto simp: inBlockLoop_def)
  show ?thesis
    unfolding taskInvariant_def
  proof (intro conjI impI ballI)
    show "sum_list (map (owed sub s) (workers ?t))
        + mset (concat (map (cellsOf s) (m_blockSource ?t)))
        + (if m_doneVisitingPreciseAllocations ?t then {#}
           else mset (taskPreciseVisits sub s))
      = mset (concat (map (cellsOf s) (parallelNotEmptyMarkedBlockSource sub s)))
        + mset (taskPreciseVisits sub s)"
      using flag by (simp only: owes source if_False) simp
    show "sum_list (map (\<lambda>worker. if wonFlag worker then 1 else 0) (workers ?t))
      = (if m_doneVisitingPreciseAllocations ?t then 1 else (0::nat))"
      using flag by (simp only: winners if_False)
    show "fst worker \<noteq> ReturnedAtFlag" if "worker \<in> set (workers ?t)" for worker
      using looping [OF that] by simp
    show "inBlockLoop worker" if "worker \<in> set (workers ?t)" for worker
      using looping [OF that] by simp
  qed
qed

lemma owed_returned:
  "\<forall>worker \<in> set ws. hasReturned worker
    \<Longrightarrow> sum_list (map (owed sub s) ws) = mset (concat (map snd ws))"
  by (induction ws) (auto simp: owed_def hasReturned_def)

lemma wonFlag_returned:
  "\<forall>worker \<in> set ws. hasReturned worker
    \<Longrightarrow> sum_list (map (\<lambda>worker. if wonFlag worker then 1 else (0::nat)) ws)
        = length (filter (\<lambda>worker. fst worker = ReturnedAfterSweep) ws)"
  by (induction ws) (auto simp: wonFlag_def hasReturned_def)

lemma taskInvariant_returned:
  assumes inv: "taskInvariant sub s expected t"
    and returned: "list_all hasReturned (workers t)"
    and some: "workers t \<noteq> []"
  shows "allVisits t = expected" and "sweepers t = 1"
proof -
  from returned have all: "\<forall>worker \<in> set (workers t). hasReturned worker"
    by (simp add: list_all_iff)
  from some obtain worker where worker: "worker \<in> set (workers t)"
    by (cases "workers t") auto
  with all have home: "hasReturned worker" by blast
  then have "\<not> inBlockLoop worker"
    by (auto simp: hasReturned_def inBlockLoop_def)
  with inv worker have drained: "m_blockSource t = []"
    by (auto simp: taskInvariant_def)
  have count: "sum_list (map (\<lambda>worker. if wonFlag worker then 1 else (0::nat)) (workers t))
        = sweepers t"
    using wonFlag_returned [OF all] by (simp add: sweepers_def)
  have claimed: "m_doneVisitingPreciseAllocations t"
  proof (rule ccontr)
    assume unclaimed: "\<not> m_doneVisitingPreciseAllocations t"
    with inv worker have "fst worker \<noteq> ReturnedAtFlag"
      by (auto simp: taskInvariant_def)
    with home have "fst worker = ReturnedAfterSweep"
      by (simp add: hasReturned_def)
    with worker have "filter (\<lambda>worker. fst worker = ReturnedAfterSweep) (workers t) \<noteq> []"
      by (auto simp: filter_empty_conv)
    then have "sweepers t \<noteq> 0"
      by (simp add: sweepers_def)
    moreover from inv unclaimed count have "sweepers t = 0"
      by (simp add: taskInvariant_def)
    ultimately show False by simp
  qed
  with inv count show "sweepers t = 1"
    by (simp add: taskInvariant_def)
  from inv claimed drained owed_returned [OF all, of sub s] show "allVisits t = expected"
    by (simp add: taskInvariant_def allVisits_def)
qed

lemma forEachMarkedCell_as_source:
  assumes stopped: "isMutatorOrMutatorIsStopped (m_directory sub)"
    and indexed: "wellIndexed sub"
    and present: "bitmapsPresent s"
  shows "forEachMarkedCell sub s =
     Inr (concat (map (cellsOf s) (parallelNotEmptyMarkedBlockSource sub s))
          @ taskPreciseVisits sub s)"
proof -
  let ?blocks = "m_blocks (m_directory sub)"
  let ?indices = "forEachSetBit (length ?blocks)
      (\<lambda>blockIndex. markingNotEmptyBitsView (m_directory sub) blockIndex
                     \<and> m_blocksWithBits s blockIndex)"
  have "markedBlockFunctor (m_directory sub) s blockIndex = Inr (cellsOf s (?blocks ! blockIndex))"
    if "blockIndex \<in> set ?indices" for blockIndex
  proof -
    from that have "blockIndex < length ?blocks" and "m_blocksWithBits s blockIndex"
      by (simp_all add: set_forEachSetBit)
    with indexed present obtain bits where
      "handle_index (?blocks ! blockIndex) = blockIndex" and "m_bits s blockIndex = Some bits"
      by (auto simp: wellIndexed_def bitmapsPresent_def)
    then show ?thesis
      by (simp add: markedBlockFunctor_def cellsOf_def taskBlockFunctor_def Let_def
                    forEachYielded_Some)
  qed
  then have "forEachBlockIndex (markedBlockFunctor (m_directory sub) s) ?indices
      = Inr (concat (map (\<lambda>blockIndex. cellsOf s (?blocks ! blockIndex)) ?indices))"
    by (intro forEachBlockIndex_Inr) simp
  with stopped show ?thesis
    by (simp add: forEachMarkedCell_def parallelNotEmptyMarkedBlockSource_def
                  taskPreciseVisits_def Let_def comp_def)
qed

lemma parallel_run_visits:
  assumes "0 < numberOfWorkers"
    and "isMutatorOrMutatorIsStopped (m_directory sub)"
    and "wellIndexed sub"
    and "bitmapsPresent s"
    and run: "runSchedule sub s schedule (newTask sub s numberOfWorkers) = Inr t"
    and returned: "list_all hasReturned (workers t)"
  shows "\<exists>sequential. forEachMarkedCell sub s = Inr sequential
            \<and> allVisits t = mset sequential"
    and "sweepers t = 1"
proof -
  have inv: "taskInvariant sub s
     (mset (concat (map (cellsOf s) (parallelNotEmptyMarkedBlockSource sub s)))
      + mset (taskPreciseVisits sub s)) t"
    using taskInvariant_newTask run by (rule taskInvariant_run)
  have "length (workers t') = length (workers t0)"
    if "runSchedule sub s schedule t0 = Inr t'" for t0 t' :: "'a task"
    using that
  proof (induction schedule arbitrary: t0)
    case Nil
    then show ?case by simp
  next
    case (Cons w schedule)
    from Cons.prems obtain t1 where
      first: "workerStep sub s w t0 = Inr t1" and rest: "runSchedule sub s schedule t1 = Inr t'"
      by (auto split: sum.splits)
    from first have "length (workers t1) = length (workers t0)"
      by (cases rule: workerStep_cases) simp_all
    with Cons.IH [OF rest] show ?case by simp
  qed
  from this [OF run] assms(1) have some: "workers t \<noteq> []"
    by (auto simp: newTask_def)
  from taskInvariant_returned [OF inv returned some]
       forEachMarkedCell_as_source [OF assms(2-4)]
  show "\<exists>sequential. forEachMarkedCell sub s = Inr sequential
            \<and> allVisits t = mset sequential"
    and "sweepers t = 1"
    by simp_all
qed

lemma distinct_concat_map:
  "distinct indices \<Longrightarrow> (\<And>i. i \<in> set indices \<Longrightarrow> distinct (f i))
    \<Longrightarrow> (\<And>i j. i \<in> set indices \<Longrightarrow> j \<in> set indices \<Longrightarrow> i \<noteq> j
          \<Longrightarrow> set (f i) \<inter> set (f j) = {})
    \<Longrightarrow> distinct (concat (map f indices))"
  by (induction indices) auto

lemma yielded_block_cells:
  assumes cells:
      "\<forall>(atomNumber, cell, kind) \<in> set yielded. cell = BlockCell blockIndex atomNumber"
    and atoms: "distinct (map fst yielded)"
  shows "distinct (map fst (map (\<lambda>(atomNumber, cell, kind). (cell, kind))
            (filter (\<lambda>(atomNumber, cell, kind). condition atomNumber cell) yielded)))"
    and "set (map fst (map (\<lambda>(atomNumber, cell, kind). (cell, kind))
            (filter (\<lambda>(atomNumber, cell, kind). condition atomNumber cell) yielded)))
         \<subseteq> range (BlockCell blockIndex)"
proof -
  let ?kept = "filter (\<lambda>(atomNumber, cell, kind). condition atomNumber cell) yielded"
  have "map fst (map (\<lambda>(atomNumber, cell, kind). (cell, kind)) ys)
          = map (BlockCell blockIndex) (map fst ys)"
    if "\<forall>(atomNumber, cell, kind) \<in> set ys. cell = BlockCell blockIndex atomNumber"
    for ys :: "(nat \<times> heap_cell \<times> 'a) list"
    using that by (induction ys) auto
  moreover from cells
  have "\<forall>(atomNumber, cell, kind) \<in> set ?kept. cell = BlockCell blockIndex atomNumber"
    by simp
  ultimately have visited:
    "map fst (map (\<lambda>(atomNumber, cell, kind). (cell, kind)) ?kept)
       = map (BlockCell blockIndex) (map fst ?kept)"
    by blast
  from atoms have keptAtoms: "distinct (map fst ?kept)"
    by (rule distinct_map_filter)
  have injective: "inj_on (BlockCell blockIndex) (set (map fst ?kept))"
    by (rule inj_onI) simp
  from conjI [OF keptAtoms injective]
  have "distinct (map (BlockCell blockIndex) (map fst ?kept))"
    by (rule distinct_map [THEN iffD2])
  then show "distinct (map fst (map (\<lambda>(atomNumber, cell, kind). (cell, kind)) ?kept))"
    by (simp only: visited)
  show "set (map fst (map (\<lambda>(atomNumber, cell, kind). (cell, kind)) ?kept))
         \<subseteq> range (BlockCell blockIndex)"
    unfolding visited by auto
qed

lemma precise_cells:
  assumes "\<forall>allocation \<in> set allocations.
             allocation_cell allocation = PreciseCell (lowerTierPreciseIndex allocation)"
    and "distinct (map lowerTierPreciseIndex allocations)"
  shows "distinct (map allocation_cell (filter condition allocations))"
    and "set (map allocation_cell (filter condition allocations)) \<subseteq> range PreciseCell"
  using assms by (induction allocations) (auto simp: image_iff)

lemma forEachMarkedCell_distinct:
  assumes stopped: "isMutatorOrMutatorIsStopped (m_directory sub)"
    and indexed: "wellIndexed sub"
    and present: "bitmapsPresent s"
    and once: "yieldsEachCellOnce sub"
    and result: "forEachMarkedCell sub s = Inr sequential"
  shows "distinct (map fst sequential)"
proof -
  let ?blocks = "m_blocks (m_directory sub)"
  let ?indices = "forEachSetBit (length ?blocks)
      (\<lambda>blockIndex. markingNotEmptyBitsView (m_directory sub) blockIndex
                     \<and> m_blocksWithBits s blockIndex)"
  let ?cells = "\<lambda>blockIndex. map fst (cellsOf s (?blocks ! blockIndex))"
  let ?precise = "map fst (taskPreciseVisits sub s)"
  have sequential: "map fst sequential = concat (map ?cells ?indices) @ ?precise"
    using forEachMarkedCell_as_source [OF stopped indexed present] result
    by (simp add: parallelNotEmptyMarkedBlockSource_def Let_def map_concat comp_def)
  have block: "distinct (?cells blockIndex) \<and> set (?cells blockIndex) \<subseteq> range (BlockCell blockIndex)"
    if "blockIndex \<in> set ?indices" for blockIndex
  proof -
    from that have less: "blockIndex < length ?blocks" and "m_blocksWithBits s blockIndex"
      by (simp_all add: set_forEachSetBit)
    with indexed present obtain bits where
      "handle_index (?blocks ! blockIndex) = blockIndex" and "m_bits s blockIndex = Some bits"
      by (auto simp: wellIndexed_def bitmapsPresent_def)
    then have cells: "cellsOf s (?blocks ! blockIndex) =
        map (\<lambda>(atomNumber, cell, kind). (cell, kind))
          (filter (\<lambda>(atomNumber, cell, kind). Bitmap_get bits atomNumber)
             (markedCells (?blocks ! blockIndex)))"
      by (simp add: cellsOf_def taskBlockFunctor_def Let_def forEachYielded_Some)
    from once less have
      "\<forall>(atomNumber, cell, kind) \<in> set (markedCells (?blocks ! blockIndex)).
          cell = BlockCell blockIndex atomNumber"
      and "distinct (map fst (markedCells (?blocks ! blockIndex)))"
      by (simp_all add: yieldsEachCellOnce_def)
    from yielded_block_cells [OF this, of "\<lambda>atomNumber cell. Bitmap_get bits atomNumber"]
    show ?thesis
      unfolding cells by simp
  qed
  have "distinct ?indices"
    by (simp add: forEachSetBit_def)
  moreover have "set (?cells i) \<inter> set (?cells j) = {}"
    if "i \<in> set ?indices" "j \<in> set ?indices" "i \<noteq> j" for i j
  proof -
    from block [OF that(1)] have "set (?cells i) \<subseteq> range (BlockCell i)" by simp
    moreover from block [OF that(2)] have "set (?cells j) \<subseteq> range (BlockCell j)" by simp
    moreover from that(3) have "range (BlockCell i) \<inter> range (BlockCell j) = {}" by auto
    ultimately show ?thesis by blast
  qed
  ultimately have blocks: "distinct (concat (map ?cells ?indices))"
    using block by (intro distinct_concat_map) simp_all
  from once have
    "\<forall>allocation \<in> set (preciseAllocations sub).
        allocation_cell allocation = PreciseCell (lowerTierPreciseIndex allocation)"
    and "distinct (map lowerTierPreciseIndex (preciseAllocations sub))"
    by (simp_all add: yieldsEachCellOnce_def)
  from precise_cells [OF this]
  have precise: "distinct ?precise" "set ?precise \<subseteq> range PreciseCell"
    by (simp_all add: taskPreciseVisits_def forEachPreciseAllocation_def comp_def)
  have "set (concat (map ?cells ?indices)) \<subseteq> range (\<lambda>(i, a). BlockCell i a)"
  proof
    fix cell
    assume "cell \<in> set (concat (map ?cells ?indices))"
    then obtain blockIndex where "blockIndex \<in> set ?indices" "cell \<in> set (?cells blockIndex)"
      by auto
    with block [of blockIndex] obtain atomNumber where "cell = BlockCell blockIndex atomNumber"
      by blast
    then show "cell \<in> range (\<lambda>(i, a). BlockCell i a)"
      by (auto intro: range_eqI [of _ _ "(blockIndex, atomNumber)"])
  qed
  moreover have "range (\<lambda>(i, a). BlockCell i a) \<inter> range PreciseCell = {}"
    by auto
  ultimately have "set (concat (map ?cells ?indices)) \<inter> set ?precise = {}"
    using precise(2) by blast
  with blocks precise(1) show ?thesis
    unfolding sequential by simp
qed

lemma scenario_source:
  "parallelNotEmptyMarkedBlockSource scenarioSubspace scenarioSet
     = [scenarioBlock0, scenarioBlock1]"
  by (simp add: parallelNotEmptyMarkedBlockSource_def forEachSetBit_def scenarioSubspace_def
                scenarioSet_def upt_2 Let_def)

lemma scenario_newTask:
  "newTask scenarioSubspace scenarioSet 2 =
     \<lparr>m_blockSource = [scenarioBlock0, scenarioBlock1],
      m_doneVisitingPreciseAllocations = False,
      workers = [(CallingBlockSource, []), (CallingBlockSource, [])]\<rparr>"
  by (simp add: newTask_def scenario_source numeral_2_eq_2)

lemma scenario_blocks:
  "taskBlockFunctor scenarioSet scenarioBlock0 = Inr [(BlockCell 0 0, ())]"
  "taskBlockFunctor scenarioSet scenarioBlock1 = Inr [(BlockCell 1 1, ())]"
  "taskPreciseVisits scenarioSubspace scenarioSet = [(PreciseCell 0, ())]"
  by (simp_all add: taskBlockFunctor_def taskPreciseVisits_def forEachYielded_def
                    forEachPreciseAllocation_def scenario_defs bitmap_defs Let_def)

lemma scenario_run:
  "runSchedule scenarioSubspace scenarioSet scenarioSchedule
     (newTask scenarioSubspace scenarioSet 2) = Inr scenarioReturned"
  by (simp add: scenario_newTask scenarioSchedule_def scenarioReturned_def workerStep_def
                scenario_blocks)

lemma scenario_wellIndexed: "wellIndexed scenarioSubspace"
  by (simp add: wellIndexed_def scenarioSubspace_def scenarioBlock0_def scenarioBlock1_def
                less_Suc_eq numeral_2_eq_2)

lemma scenario_yieldsEachCellOnce: "yieldsEachCellOnce scenarioSubspace"
  by (simp add: yieldsEachCellOnce_def scenarioSubspace_def scenarioBlock0_def
                scenarioBlock1_def less_Suc_eq numeral_2_eq_2)

lemma scenario_returned: "list_all hasReturned (workers scenarioReturned)"
  by (simp add: scenarioReturned_def hasReturned_def)

lemma workerStep_returns:
  assumes "blocksVisitable s t"
  shows "\<exists>t'. workerStep sub s w t = Inr t'"
proof (cases "length (workers t) \<le> w")
  case True
  then show ?thesis by (simp add: workerStep_def)
next
  case False
  obtain position visited where worker: "workers t ! w = (position, visited)"
    by (cases "workers t ! w")
  from False have "workers t ! w \<in> set (workers t)" by simp
  with assms worker have "case position of VisitingBlock handle \<Rightarrow> visitable s handle | _ \<Rightarrow> True"
    by (auto simp: blocksVisitable_def)
  with False worker show ?thesis
    by (cases position)
       (auto simp: workerStep_def visitable_def split: list.splits)
qed

lemma blocksVisitable_step:
  assumes inv: "blocksVisitable s t"
    and step: "workerStep sub s w t = Inr t'"
  shows "blocksVisitable s t'"
  using step
proof (cases rule: workerStep_cases)
  case idle
  with inv show ?thesis by simp
next
  case (claim visited handle rest)
  with inv show ?thesis
    by (auto simp: blocksVisitable_def dest!: set_update_subset_insert [THEN subsetD])
next
  case (drained visited)
  with inv show ?thesis
    by (auto simp: blocksVisitable_def dest!: set_update_subset_insert [THEN subsetD])
next
  case (visit visited handle cells)
  with inv show ?thesis
    by (auto simp: blocksVisitable_def dest!: set_update_subset_insert [THEN subsetD])
next
  case (lost visited)
  with inv show ?thesis
    by (auto simp: blocksVisitable_def dest!: set_update_subset_insert [THEN subsetD])
next
  case (won visited)
  with inv show ?thesis
    by (auto simp: blocksVisitable_def dest!: set_update_subset_insert [THEN subsetD])
next
  case (sweep visited)
  with inv show ?thesis
    by (auto simp: blocksVisitable_def dest!: set_update_subset_insert [THEN subsetD])
qed

lemma blocksVisitable_run:
  "blocksVisitable s t \<Longrightarrow>
     \<exists>t'. runSchedule sub s schedule t = Inr t' \<and> blocksVisitable s t'"
proof (induction schedule arbitrary: t)
  case Nil
  then show ?case by simp
next
  case (Cons w schedule)
  from workerStep_returns [OF Cons.prems] obtain t1 where first: "workerStep sub s w t = Inr t1"
    by blast
  from blocksVisitable_step [OF Cons.prems first] have "blocksVisitable s t1" .
  from Cons.IH [OF this] first show ?case by simp
qed

lemma blocksVisitable_newTask:
  assumes indexed: "wellIndexed sub" and present: "bitmapsPresent s"
  shows "blocksVisitable s (newTask sub s numberOfWorkers)"
proof -
  have "visitable s handle"
    if "handle \<in> set (parallelNotEmptyMarkedBlockSource sub s)" for handle
  proof -
    from that obtain blockIndex where
      handle: "handle = m_blocks (m_directory sub) ! blockIndex"
      and less: "blockIndex < length (m_blocks (m_directory sub))"
      and flag: "m_blocksWithBits s blockIndex"
      by (auto simp: parallelNotEmptyMarkedBlockSource_def Let_def set_forEachSetBit)
    with indexed present obtain bits where
      "handle_index handle = blockIndex" and "m_bits s blockIndex = Some bits"
      by (auto simp: wellIndexed_def bitmapsPresent_def)
    then show ?thesis
      by (simp add: visitable_def taskBlockFunctor_def Let_def forEachYielded_Some)
  qed
  then show ?thesis
    by (simp add: blocksVisitable_def newTask_def)
qed

lemma effort_returned: "effort t w = 0 \<Longrightarrow> hasReturned (workers t ! w)"
  by (cases "fst (workers t ! w)") (simp_all add: effort_def hasReturned_def)

lemma workerStep_progress:
  assumes step: "workerStep sub s w t = Inr t'" and w: "w < length (workers t)"
  shows "effort t' w \<le> effort t w - 1"
    and "length (workers t') = length (workers t)"
    and "length (m_blockSource t') \<le> length (m_blockSource t)"
    and "\<And>v. v \<noteq> w \<Longrightarrow> workers t' ! v = workers t ! v"
proof -
  obtain position visited where worker: "workers t ! w = (position, visited)"
    by (cases "workers t ! w")
  from step w worker show "effort t' w \<le> effort t w - 1"
    by (cases position)
       (auto simp: workerStep_def effort_def split: list.splits sum.splits if_splits)
  from step show "length (workers t') = length (workers t)"
    by (cases rule: workerStep_cases) simp_all
  from step show "length (m_blockSource t') \<le> length (m_blockSource t)"
    by (cases rule: workerStep_cases) simp_all
  show "workers t' ! v = workers t ! v" if "v \<noteq> w" for v
    using step that by (cases rule: workerStep_cases) simp_all
qed

lemma runSchedule_append:
  "runSchedule sub s (first @ second) t =
     (case runSchedule sub s first t of
        Inl failure \<Rightarrow> Inl failure
      | Inr t' \<Rightarrow> runSchedule sub s second t')"
  by (induction first arbitrary: t) (simp_all split: sum.splits)

lemma worker_runs_to_return:
  assumes "blocksVisitable s t" and "w < length (workers t)" and "effort t w \<le> turns"
  shows "\<exists>t'. runSchedule sub s (replicate turns w) t = Inr t'
           \<and> blocksVisitable s t'
           \<and> hasReturned (workers t' ! w)
           \<and> length (workers t') = length (workers t)
           \<and> length (m_blockSource t') \<le> length (m_blockSource t)
           \<and> (\<forall>v. v \<noteq> w \<longrightarrow> workers t' ! v = workers t ! v)"
  using assms
proof (induction turns arbitrary: t)
  case 0
  then show ?case by (simp add: effort_returned)
next
  case (Suc turns)
  from workerStep_returns [OF Suc.prems(1)] obtain t1 where
    first: "workerStep sub s w t = Inr t1"
    by blast
  note progress = workerStep_progress [OF first Suc.prems(2)]
  from blocksVisitable_step [OF Suc.prems(1) first] have visitable: "blocksVisitable s t1" .
  from progress(2) Suc.prems(2) have w: "w < length (workers t1)" by simp
  from progress(1) Suc.prems(3) have "effort t1 w \<le> turns" by simp
  from Suc.IH [OF visitable w this] obtain t' where
    "runSchedule sub s (replicate turns w) t1 = Inr t'"
    "blocksVisitable s t'"
    "hasReturned (workers t' ! w)"
    "length (workers t') = length (workers t1)"
    "length (m_blockSource t') \<le> length (m_blockSource t1)"
    "\<forall>v. v \<noteq> w \<longrightarrow> workers t' ! v = workers t1 ! v"
    by blast
  with first progress(2-4) show ?case
    by (intro exI [of _ t']) simp
qed

lemma effort_bound: "effort t w \<le> 2 * length (m_blockSource t) + 4"
  by (cases "fst (workers t ! w)") (simp_all add: effort_def)

lemma workers_run_to_return:
  assumes "blocksVisitable s t"
    and "distinct ws"
    and "\<forall>w \<in> set ws. w < length (workers t)"
    and "2 * length (m_blockSource t) + 4 \<le> turns"
  shows "\<exists>t'. runSchedule sub s (concat (map (replicate turns) ws)) t = Inr t'
           \<and> length (workers t') = length (workers t)
           \<and> (\<forall>w \<in> set ws. hasReturned (workers t' ! w))
           \<and> (\<forall>v. v \<notin> set ws \<longrightarrow> workers t' ! v = workers t ! v)"
  using assms
proof (induction ws arbitrary: t)
  case Nil
  then show ?case by simp
next
  case (Cons w ws)
  from Cons.prems(3) have w: "w < length (workers t)" by simp
  from effort_bound [of t w] Cons.prems(4) have "effort t w \<le> turns" by simp
  from worker_runs_to_return [OF Cons.prems(1) w this, of sub] obtain t1 where
    first: "runSchedule sub s (replicate turns w) t = Inr t1"
    and visitable: "blocksVisitable s t1"
    and returned: "hasReturned (workers t1 ! w)"
    and same: "length (workers t1) = length (workers t)"
    and fewer: "length (m_blockSource t1) \<le> length (m_blockSource t)"
    and others: "\<forall>v. v \<noteq> w \<longrightarrow> workers t1 ! v = workers t ! v"
    by blast
  from Cons.prems(2) have distinct: "distinct ws" and fresh: "w \<notin> set ws" by simp_all
  from Cons.prems(3) same have less: "\<forall>w \<in> set ws. w < length (workers t1)" by simp
  from fewer Cons.prems(4) have "2 * length (m_blockSource t1) + 4 \<le> turns" by simp
  from Cons.IH [OF visitable distinct less this] obtain t' where
    rest: "runSchedule sub s (concat (map (replicate turns) ws)) t1 = Inr t'"
    and "length (workers t') = length (workers t1)"
    and "\<forall>w \<in> set ws. hasReturned (workers t' ! w)"
    and "\<forall>v. v \<notin> set ws \<longrightarrow> workers t' ! v = workers t1 ! v"
    by blast
  with first returned same others fresh show ?case
    by (intro exI [of _ t']) (auto simp: runSchedule_append)
qed

lemma task_completes:
  assumes indexed: "wellIndexed sub" and present: "bitmapsPresent s"
  shows "\<exists>schedule t. runSchedule sub s schedule (newTask sub s numberOfWorkers) = Inr t
            \<and> list_all hasReturned (workers t)"
proof -
  let ?t = "newTask sub s numberOfWorkers"
  let ?turns = "2 * length (m_blockSource ?t) + 4"
  have "\<forall>w \<in> set [0..<numberOfWorkers]. w < length (workers ?t)"
    by (simp add: newTask_def)
  from workers_run_to_return
         [OF blocksVisitable_newTask [OF indexed present] distinct_upt this order_refl, of sub]
  obtain t' where
    run: "runSchedule sub s (concat (map (replicate ?turns) [0..<numberOfWorkers])) ?t = Inr t'"
    and same: "length (workers t') = length (workers ?t)"
    and returned: "\<forall>w \<in> set [0..<numberOfWorkers]. hasReturned (workers t' ! w)"
    by blast
  from same returned have "list_all hasReturned (workers t')"
    by (simp add: list_all_length newTask_def)
  with run show ?thesis by blast
qed

subsection \<open>Facts about adds that race\<close>

lemma grows_refl: "grows s s"
  by (simp add: grows_def)

lemma grows_trans: "grows s s' \<Longrightarrow> grows s' s'' \<Longrightarrow> grows s s''"
  by (simp add: grows_def)

lemma settled_grows: "grows s s' \<Longrightarrow> settled s adder \<Longrightarrow> settled s' adder"
  by (cases adder; cases "snd adder"; cases "fst adder")
     (auto simp: grows_def settled_def)

lemma raceInvariant_update:
  assumes inv: "raceInvariant s0 r"
    and grows: "grows (raceSet r) s'"
    and flagged: "bitmapsFlagged s'"
    and count: "\<forall>blockIndex. count' blockIndex =
            (if m_bits s0 blockIndex = None \<and> m_bits s' blockIndex \<noteq> None then 1 else 0)"
    and adder: "settled s' adder"
  shows "raceInvariant s0 (r\<lparr>raceSet := s', installations := count',
                              adders := (adders r)[n := adder]\<rparr>)"
proof -
  from inv grows have "grows s0 s'"
    by (auto simp: raceInvariant_def intro: grows_trans)
  moreover have "settled s' other"
    if "other \<in> set ((adders r)[n := adder])" for other
  proof -
    from that have "other = adder \<or> other \<in> set (adders r)"
      using set_update_subset_insert [of "adders r" n adder] by auto
    with inv adder grows show ?thesis
      by (auto simp: raceInvariant_def intro: settled_grows)
  qed
  ultimately show ?thesis
    using flagged count by (simp add: raceInvariant_def)
qed

lemma raceInvariant_step:
  assumes inv: "raceInvariant s0 r"
    and step: "adderStep n r = Inr r'"
  shows "raceInvariant s0 r'"
proof (cases "length (adders r) \<le> n")
  case True
  with step inv show ?thesis by (simp add: adderStep_def Let_def)
next
  case False
  let ?s = "raceSet r"
  obtain position cell where adder: "adders r ! n = (position, cell)"
    by (cases "adders r ! n")
  from False have "adders r ! n \<in> set (adders r)" by simp
  with inv adder have here: "settled ?s (position, cell)"
    by (auto simp: raceInvariant_def)
  from inv have flagged: "bitmapsFlagged ?s"
    and since: "grows s0 ?s"
    and count: "\<forall>blockIndex. installations r blockIndex =
            (if m_bits s0 blockIndex = None \<and> m_bits ?s blockIndex \<noteq> None then 1 else 0)"
    by (simp_all add: raceInvariant_def)
  note update = raceInvariant_update [OF inv]
  show ?thesis
  proof (cases cell)
    case (PreciseCell preciseIndex)
    show ?thesis
    proof (cases "position = ReadingSlot")
      case True
      let ?s' = "?s\<lparr>m_lowerTierPreciseBits := (m_lowerTierPreciseBits ?s)(preciseIndex := True)\<rparr>"
      let ?adder = "(Added (\<not> m_lowerTierPreciseBits ?s preciseIndex), cell)"
      from step False adder PreciseCell True
      have r': "r' = r\<lparr>raceSet := ?s', installations := installations r,
                        adders := (adders r)[n := ?adder]\<rparr>"
        by (simp add: adderStep_def Let_def concurrentTestAndSet_def)
      show ?thesis
        unfolding r'
      proof (rule update)
        show "grows ?s ?s'"
          by (auto simp: grows_def cellBit_def split: heap_cell.splits)
        show "bitmapsFlagged ?s'"
          using flagged by (simp add: bitmapsFlagged_def)
        show "\<forall>blockIndex. installations r blockIndex =
            (if m_bits s0 blockIndex = None \<and> m_bits ?s' blockIndex \<noteq> None then 1 else 0)"
          using count by simp
        show "settled ?s' ?adder"
          using PreciseCell by (simp add: settled_def cellBit_def)
      qed
    next
      case False
      with step \<open>\<not> length (adders r) \<le> n\<close> adder PreciseCell have "r' = r"
        by (cases position) (simp_all add: adderStep_def Let_def)
      with inv show ?thesis by simp
    qed
  next
    case (BlockCell blockIndex atomNumber)
    show ?thesis
    proof (cases position)
      case ReadingSlot
      let ?adder = "(case m_bits ?s blockIndex of None \<Rightarrow> SettingFlag
                     | Some bits \<Rightarrow> TestingAndSetting, cell)"
      from step False adder BlockCell ReadingSlot
      have r': "r' = r\<lparr>raceSet := ?s, installations := installations r,
                        adders := (adders r)[n := ?adder]\<rparr>"
        by (simp add: adderStep_def Let_def split: option.splits)
      show ?thesis
        unfolding r'
      proof (rule update)
        show "grows ?s ?s" by (rule grows_refl)
        show "bitmapsFlagged ?s" by (rule flagged)
        show "\<forall>blockIndex. installations r blockIndex =
            (if m_bits s0 blockIndex = None \<and> m_bits ?s blockIndex \<noteq> None then 1 else 0)"
          by (rule count)
        show "settled ?s ?adder"
          using BlockCell by (simp add: settled_def split: option.splits)
      qed
    next
      case SettingFlag
      let ?s' = "?s\<lparr>m_blocksWithBits := (m_blocksWithBits ?s)(blockIndex := True)\<rparr>"
      let ?adder = "(InstallingBitmap, cell)"
      from step False adder BlockCell SettingFlag
      have r': "r' = r\<lparr>raceSet := ?s', installations := installations r,
                        adders := (adders r)[n := ?adder]\<rparr>"
        by (simp add: adderStep_def Let_def)
      show ?thesis
        unfolding r'
      proof (rule update)
        show "grows ?s ?s'"
          by (auto simp: grows_def cellBit_def split: heap_cell.splits)
        show "bitmapsFlagged ?s'"
          using flagged by (simp add: bitmapsFlagged_def)
        show "\<forall>blockIndex. installations r blockIndex =
            (if m_bits s0 blockIndex = None \<and> m_bits ?s' blockIndex \<noteq> None then 1 else 0)"
          using count by simp
        show "settled ?s' ?adder"
          using BlockCell by (simp add: settled_def)
      qed
    next
      case InstallingBitmap
      from here BlockCell InstallingBitmap have flag: "m_blocksWithBits ?s blockIndex"
        by (simp add: settled_def)
      show ?thesis
      proof (cases "m_bits ?s blockIndex")
        case None
        let ?s' = "?s\<lparr>m_bits := (m_bits ?s)(blockIndex \<mapsto> emptyBitmap)\<rparr>"
        let ?count = "(installations r)(blockIndex := Suc (installations r blockIndex))"
        let ?adder = "(TestingAndSetting, cell)"
        from step False adder BlockCell InstallingBitmap None
        have r': "r' = r\<lparr>raceSet := ?s', installations := ?count,
                          adders := (adders r)[n := ?adder]\<rparr>"
          by (simp add: adderStep_def Let_def)
        from since None have first: "m_bits s0 blockIndex = None"
          by (auto simp: grows_def)
        show ?thesis
          unfolding r'
        proof (rule update)
          show "grows ?s ?s'"
            using None by (auto simp: grows_def cellBit_def split: heap_cell.splits)
          show "bitmapsFlagged ?s'"
            using flagged flag by (simp add: bitmapsFlagged_def)
          show "\<forall>index. ?count index =
              (if m_bits s0 index = None \<and> m_bits ?s' index \<noteq> None then 1 else 0)"
            using count None first by simp
          show "settled ?s' ?adder"
            using BlockCell by (simp add: settled_def)
        qed
      next
        case (Some bits)
        let ?adder = "(TestingAndSetting, cell)"
        from step False adder BlockCell InstallingBitmap Some
        have r': "r' = r\<lparr>raceSet := ?s, installations := installations r,
                          adders := (adders r)[n := ?adder]\<rparr>"
          by (simp add: adderStep_def Let_def)
        show ?thesis
          unfolding r'
        proof (rule update)
          show "grows ?s ?s" by (rule grows_refl)
          show "bitmapsFlagged ?s" by (rule flagged)
          show "\<forall>blockIndex. installations r blockIndex =
              (if m_bits s0 blockIndex = None \<and> m_bits ?s blockIndex \<noteq> None then 1 else 0)"
            by (rule count)
          show "settled ?s ?adder"
            using BlockCell Some by (simp add: settled_def)
        qed
      qed
    next
      case TestingAndSetting
      from step False adder BlockCell TestingAndSetting obtain bits where
        bits: "m_bits ?s blockIndex = Some bits"
        by (cases "m_bits ?s blockIndex") (simp_all add: adderStep_def Let_def)
      let ?s' = "?s\<lparr>m_bits := (m_bits ?s)(blockIndex \<mapsto> bits(atomNumber := True))\<rparr>"
      let ?adder = "(Added (\<not> bits atomNumber), cell)"
      from step False adder BlockCell TestingAndSetting bits
      have r': "r' = r\<lparr>raceSet := ?s', installations := installations r,
                        adders := (adders r)[n := ?adder]\<rparr>"
        by (simp add: adderStep_def Let_def concurrentTestAndSet_def)
      show ?thesis
        unfolding r'
      proof (rule update)
        show "grows ?s ?s'"
          using bits by (auto simp: grows_def cellBit_def split: heap_cell.splits)
        show "bitmapsFlagged ?s'"
          using flagged bits by (auto simp: bitmapsFlagged_def)
        show "\<forall>index. installations r index =
            (if m_bits s0 index = None \<and> m_bits ?s' index \<noteq> None then 1 else 0)"
          using count bits by simp
        show "settled ?s' ?adder"
          using BlockCell by (simp add: settled_def cellBit_def)
      qed
    next
      case (Added result)
      with step False adder BlockCell have "r' = r"
        by (simp add: adderStep_def Let_def)
      with inv show ?thesis by simp
    qed
  qed
qed

lemma adderStep_returns:
  assumes inv: "raceInvariant s0 r"
  shows "\<exists>r'. adderStep n r = Inr r'"
proof (cases "length (adders r) \<le> n")
  case True
  then show ?thesis by (simp add: adderStep_def Let_def)
next
  case False
  obtain position cell where adder: "adders r ! n = (position, cell)"
    by (cases "adders r ! n")
  from False have "adders r ! n \<in> set (adders r)" by simp
  with inv adder have here: "settled (raceSet r) (position, cell)"
    by (auto simp: raceInvariant_def)
  show ?thesis
    using False adder here
    by (cases cell; cases position)
       (auto simp: adderStep_def Let_def settled_def concurrentTestAndSet_def split: option.splits)
qed

lemma raceInvariant_run:
  "raceInvariant s0 r \<Longrightarrow>
     \<exists>r'. raceSchedule schedule r = Inr r' \<and> raceInvariant s0 r'"
proof (induction schedule arbitrary: r)
  case Nil
  then show ?case by simp
next
  case (Cons n schedule)
  from adderStep_returns [OF Cons.prems] obtain r1 where first: "adderStep n r = Inr r1"
    by blast
  from raceInvariant_step [OF Cons.prems first] have "raceInvariant s0 r1" .
  from Cons.IH [OF this] first show ?case by simp
qed

lemma raceInvariant_newRace: "bitmapsFlagged s0 \<Longrightarrow> raceInvariant s0 (newRace s0 cells)"
  by (auto simp: raceInvariant_def newRace_def grows_refl settled_def split: heap_cell.splits)

lemma adderStep_cells:
  assumes "adderStep n r = Inr r'"
  shows "map snd (adders r') = map snd (adders r)"
proof (cases "length (adders r) \<le> n")
  case True
  with assms show ?thesis by (simp add: adderStep_def)
next
  case False
  obtain position cell where adder: "adders r ! n = (position, cell)"
    by (cases "adders r ! n")
  from assms False adder show ?thesis
    by (cases cell; cases position)
       (auto simp: adderStep_def Let_def concurrentTestAndSet_def map_update
                   list_update_same_conv split: option.splits)
qed

lemma raceSchedule_cells:
  "raceSchedule schedule r = Inr r' \<Longrightarrow> map snd (adders r') = map snd (adders r)"
proof (induction schedule arbitrary: r)
  case Nil
  then show ?case by simp
next
  case (Cons n schedule)
  from Cons.prems obtain r1 where
    first: "adderStep n r = Inr r1" and rest: "raceSchedule schedule r1 = Inr r'"
    by (auto split: sum.splits)
  from Cons.IH [OF rest] adderStep_cells [OF first] show ?case by simp
qed

lemma racing_adds:
  assumes flagged: "bitmapsFlagged s0"
  obtains r where "raceSchedule schedule (newRace s0 cells) = Inr r"
    and "bitmapsFlagged (raceSet r)"
    and "\<And>blockIndex. installations r blockIndex \<le> 1"
    and "\<And>cell. list_all hasAdded (adders r) \<Longrightarrow> cell \<in> set cells
            \<Longrightarrow> cellBit (raceSet r) cell"
    and "\<And>blockIndex atomNumber. list_all hasAdded (adders r)
            \<Longrightarrow> BlockCell blockIndex atomNumber \<in> set cells
            \<Longrightarrow> m_bits s0 blockIndex = None \<Longrightarrow> installations r blockIndex = 1"
proof -
  from raceInvariant_run [OF raceInvariant_newRace [OF flagged, of cells], of schedule]
  obtain r where run: "raceSchedule schedule (newRace s0 cells) = Inr r"
    and inv: "raceInvariant s0 r"
    by blast
  from raceSchedule_cells [OF run] have cells: "map snd (adders r) = cells"
    by (simp add: newRace_def comp_def)
  have added: "cellBit (raceSet r) cell"
    if "list_all hasAdded (adders r)" "cell \<in> set cells" for cell
  proof -
    from that(2) cells obtain adder where
      adder: "adder \<in> set (adders r)" and cell: "snd adder = cell"
      by (metis (no_types) image_iff set_map)
    with that(1) have "hasAdded adder"
      by (simp add: list_all_iff)
    moreover from inv adder have "settled (raceSet r) adder"
      by (simp add: raceInvariant_def)
    ultimately show ?thesis
      using cell
      by (cases "fst adder"; cases cell) (auto simp: hasAdded_def settled_def)
  qed
  have one: "installations r blockIndex = 1"
    if "list_all hasAdded (adders r)" "BlockCell blockIndex atomNumber \<in> set cells"
       "m_bits s0 blockIndex = None" for blockIndex atomNumber
  proof -
    from added [OF that(1,2)] have "m_bits (raceSet r) blockIndex \<noteq> None"
      by (auto simp: cellBit_def split: option.splits)
    with inv that(3) show ?thesis
      by (simp add: raceInvariant_def)
  qed
  from inv have covered: "bitmapsFlagged (raceSet r)"
    and most: "installations r blockIndex \<le> 1" for blockIndex
    by (simp_all add: raceInvariant_def)
  show ?thesis
    by (rule that [OF run covered most added one])
qed

lemma lone_adder:
  "raceSchedule [0, 0, 0, 0] (newRace s [cell])
     = Inr \<lparr>raceSet = snd (IsoCellSet_add s cell),
            installations =
              (case cell of
                 PreciseCell preciseIndex \<Rightarrow> (\<lambda>blockIndex. 0)
               | BlockCell blockIndex atomNumber \<Rightarrow>
                   (case m_bits s blockIndex of
                      None \<Rightarrow> (\<lambda>blockIndex. 0)(blockIndex := Suc 0)
                    | Some bits \<Rightarrow> (\<lambda>blockIndex. 0))),
            adders = [(Added (fst (IsoCellSet_add s cell)), cell)]\<rparr>"
  by (cases cell)
     (simp_all add: newRace_def adderStep_def IsoCellSet_add_def addSlow_def bitmap_defs
                    Let_def split: option.split)

lemma scenario_race:
  "\<exists>r. raceSchedule [0, 1, 0, 1, 0, 1, 0, 1]
          (newRace IsoCellSet_empty [BlockCell 0 1, BlockCell 0 2]) = Inr r
       \<and> adders r = [(Added True, BlockCell 0 1), (Added True, BlockCell 0 2)]"
  by (simp add: newRace_def adderStep_def IsoCellSet_empty_def bitmap_defs Let_def)

lemma raceEffort_added: "raceEffort r n = 0 \<Longrightarrow> hasAdded (adders r ! n)"
  by (cases "fst (adders r ! n)") (simp_all add: raceEffort_def hasAdded_def)

lemma raceEffort_bound: "raceEffort r n \<le> 4"
  by (cases "fst (adders r ! n)") (simp_all add: raceEffort_def)

lemma adderStep_progress:
  assumes inv: "raceInvariant s0 r"
    and step: "adderStep n r = Inr r'"
    and n: "n < length (adders r)"
  shows "raceEffort r' n \<le> raceEffort r n - 1"
    and "length (adders r') = length (adders r)"
    and "\<And>m. m \<noteq> n \<Longrightarrow> adders r' ! m = adders r ! m"
proof -
  obtain position cell where adder: "adders r ! n = (position, cell)"
    by (cases "adders r ! n")
  from n have "adders r ! n \<in> set (adders r)" by simp
  with inv adder have here: "settled (raceSet r) (position, cell)"
    by (auto simp: raceInvariant_def)
  from step n adder here show "raceEffort r' n \<le> raceEffort r n - 1"
    by (cases cell; cases position)
       (auto simp: adderStep_def Let_def raceEffort_def settled_def concurrentTestAndSet_def
             split: option.splits)
  from step n adder show "length (adders r') = length (adders r)"
    by (cases cell; cases position)
       (auto simp: adderStep_def Let_def concurrentTestAndSet_def split: option.splits)
  show "adders r' ! m = adders r ! m" if "m \<noteq> n" for m
    using step n adder that
    by (cases cell; cases position)
       (auto simp: adderStep_def Let_def concurrentTestAndSet_def split: option.splits)
qed

lemma raceSchedule_append:
  "raceSchedule (first @ second) r =
     (case raceSchedule first r of
        Inl failure \<Rightarrow> Inl failure
      | Inr r' \<Rightarrow> raceSchedule second r')"
  by (induction first arbitrary: r) (simp_all split: sum.splits)

lemma adder_runs_to_return:
  assumes "raceInvariant s0 r" and "n < length (adders r)" and "raceEffort r n \<le> turns"
  shows "\<exists>r'. raceSchedule (replicate turns n) r = Inr r'
           \<and> raceInvariant s0 r'
           \<and> hasAdded (adders r' ! n)
           \<and> length (adders r') = length (adders r)
           \<and> (\<forall>m. m \<noteq> n \<longrightarrow> adders r' ! m = adders r ! m)"
  using assms
proof (induction turns arbitrary: r)
  case 0
  then show ?case by (simp add: raceEffort_added)
next
  case (Suc turns)
  from adderStep_returns [OF Suc.prems(1)] obtain r1 where
    first: "adderStep n r = Inr r1"
    by blast
  note progress = adderStep_progress [OF Suc.prems(1) first Suc.prems(2)]
  from raceInvariant_step [OF Suc.prems(1) first] have inv: "raceInvariant s0 r1" .
  from progress(2) Suc.prems(2) have n: "n < length (adders r1)" by simp
  from progress(1) Suc.prems(3) have "raceEffort r1 n \<le> turns" by simp
  from Suc.IH [OF inv n this] obtain r' where
    "raceSchedule (replicate turns n) r1 = Inr r'"
    "raceInvariant s0 r'"
    "hasAdded (adders r' ! n)"
    "length (adders r') = length (adders r1)"
    "\<forall>m. m \<noteq> n \<longrightarrow> adders r' ! m = adders r1 ! m"
    by blast
  with first progress(2,3) show ?case
    by (intro exI [of _ r']) simp
qed

lemma adders_run_to_return:
  assumes "raceInvariant s0 r"
    and "distinct ns"
    and "\<forall>n \<in> set ns. n < length (adders r)"
  shows "\<exists>r'. raceSchedule (concat (map (replicate 4) ns)) r = Inr r'
           \<and> length (adders r') = length (adders r)
           \<and> (\<forall>n \<in> set ns. hasAdded (adders r' ! n))
           \<and> (\<forall>m. m \<notin> set ns \<longrightarrow> adders r' ! m = adders r ! m)"
  using assms
proof (induction ns arbitrary: r)
  case Nil
  then show ?case by simp
next
  case (Cons n ns)
  from Cons.prems(3) have n: "n < length (adders r)" by simp
  from adder_runs_to_return [OF Cons.prems(1) n raceEffort_bound] obtain r1 where
    first: "raceSchedule (replicate 4 n) r = Inr r1"
    and inv: "raceInvariant s0 r1"
    and added: "hasAdded (adders r1 ! n)"
    and same: "length (adders r1) = length (adders r)"
    and others: "\<forall>m. m \<noteq> n \<longrightarrow> adders r1 ! m = adders r ! m"
    by blast
  from Cons.prems(2) have distinct: "distinct ns" and fresh: "n \<notin> set ns" by simp_all
  from Cons.prems(3) same have less: "\<forall>n \<in> set ns. n < length (adders r1)" by simp
  from Cons.IH [OF inv distinct less] obtain r' where
    rest: "raceSchedule (concat (map (replicate 4) ns)) r1 = Inr r'"
    and "length (adders r') = length (adders r1)"
    and "\<forall>n \<in> set ns. hasAdded (adders r' ! n)"
    and "\<forall>m. m \<notin> set ns \<longrightarrow> adders r' ! m = adders r1 ! m"
    by blast
  with first added same others fresh show ?case
    by (intro exI [of _ r']) (auto simp: raceSchedule_append simp del: replicate.simps)
qed

lemma race_completes:
  assumes flagged: "bitmapsFlagged s0"
  shows "\<exists>schedule r. raceSchedule schedule (newRace s0 cells) = Inr r
            \<and> list_all hasAdded (adders r)"
proof -
  let ?r = "newRace s0 cells"
  have "\<forall>n \<in> set [0..<length cells]. n < length (adders ?r)"
    by (simp add: newRace_def)
  from adders_run_to_return [OF raceInvariant_newRace [OF flagged] distinct_upt this]
  obtain r' where
    run: "raceSchedule (concat (map (replicate 4) [0..<length cells])) ?r = Inr r'"
    and same: "length (adders r') = length (adders ?r)"
    and added: "\<forall>n \<in> set [0..<length cells]. hasAdded (adders r' ! n)"
    by blast
  from same added have "list_all hasAdded (adders r')"
    by (simp add: list_all_length newRace_def)
  with run show ?thesis by blast
qed










subsection \<open>Claims about the membership operations\<close>

text \<open>
  C1. The claim is that \<^verbatim>\<open>contains(cell)\<close> is true exactly when the bit of the cell is 1.
  On the empty set the bit of the precise allocation with index 0 is 0, and
  \<^verbatim>\<open>contains\<close> answers true: the precise branch returns the negated bit. After the cell
  is added its bit is 1 and \<^verbatim>\<open>contains\<close> answers false. On every set the answer for
  a precise allocation is the negation of its bit, and the answer for a cell of a block is
  its bit (0 where the block has no bitmap).
\<close>

theorem contains_precise_negated:
  "\<not> cellBit IsoCellSet_empty (PreciseCell 0)
   \<and> IsoCellSet_contains IsoCellSet_empty (PreciseCell 0)
   \<and> cellBit (snd (IsoCellSet_add IsoCellSet_empty (PreciseCell 0))) (PreciseCell 0)
   \<and> \<not> IsoCellSet_contains (snd (IsoCellSet_add IsoCellSet_empty (PreciseCell 0)))
         (PreciseCell 0)
   \<and> IsoCellSet_contains s (PreciseCell n) = (\<not> cellBit s (PreciseCell n))
   \<and> IsoCellSet_contains s (BlockCell blockIndex atomNumber)
       = cellBit s (BlockCell blockIndex atomNumber)"
proof -
  have "\<not> cellBit IsoCellSet_empty (PreciseCell 0)"
    by (simp add: cellBit_def IsoCellSet_empty_def emptyBitmap_def)
  moreover have "cellBit (snd (IsoCellSet_add IsoCellSet_empty (PreciseCell 0))) (PreciseCell 0)"
    by (simp add: add_sets_bit)
  ultimately show ?thesis
    by (simp add: contains_precise_cell contains_block_cell)
qed

text \<open>
  C2. The claim is the round trip: a cell not yet added is not contained, it is contained
  after \<^verbatim>\<open>add\<close>, and not contained after a following \<^verbatim>\<open>remove\<close>. For the precise
  allocation with index 0 and the empty set the three answers of \<^verbatim>\<open>contains\<close> are
  true, false, true, while \<^verbatim>\<open>add\<close> and \<^verbatim>\<open>remove\<close> both report a transition.
\<close>

theorem round_trip_precise_inverted:
  "IsoCellSet_contains IsoCellSet_empty (PreciseCell 0) = True
   \<and> IsoCellSet_add IsoCellSet_empty (PreciseCell 0)
       = (True, IsoCellSet_empty\<lparr>m_lowerTierPreciseBits := emptyBitmap(0 := True)\<rparr>)
   \<and> IsoCellSet_contains (snd (IsoCellSet_add IsoCellSet_empty (PreciseCell 0)))
       (PreciseCell 0) = False
   \<and> fst (IsoCellSet_remove (snd (IsoCellSet_add IsoCellSet_empty (PreciseCell 0)))
       (PreciseCell 0)) = True
   \<and> IsoCellSet_contains
       (snd (IsoCellSet_remove (snd (IsoCellSet_add IsoCellSet_empty (PreciseCell 0)))
          (PreciseCell 0)))
       (PreciseCell 0) = True"
  by (simp add: IsoCellSet_contains_def IsoCellSet_add_def IsoCellSet_remove_def
                IsoCellSet_empty_def bitmap_defs)

text \<open>
  C3. The claim is that, of the calls \<^verbatim>\<open>add(c)\<close> with no \<^verbatim>\<open>remove(c)\<close> between
  them, only the first returns true. For the precise allocation with index 2,
  \<^verbatim>\<open>clearLowerTierPreciseCell(2)\<close> clears the bit as well: \<^verbatim>\<open>add\<close>, then
  \<^verbatim>\<open>clearLowerTierPreciseCell(2)\<close>, then \<^verbatim>\<open>add\<close> again, with no \<^verbatim>\<open>remove\<close> at all,
  returns true both times.
\<close>

theorem add_after_clear_counterexample:
  "fst (IsoCellSet_add IsoCellSet_empty (PreciseCell 2))
   \<and> Remove (PreciseCell 2) \<notin> set [ClearLowerTierPreciseCell 2]
   \<and> fst (IsoCellSet_add
         (performAll (snd (IsoCellSet_add IsoCellSet_empty (PreciseCell 2)))
            [ClearLowerTierPreciseCell 2])
         (PreciseCell 2))"
  by (simp add: IsoCellSet_add_def clearLowerTierPreciseCell_def IsoCellSet_empty_def
                bitmap_defs)

text \<open>
  C3, as amended. \<^verbatim>\<open>add(c)\<close> returns the negation of the previous bit of \<^verbatim>\<open>c\<close>, and
  the bit is 1 afterwards; so the call returns true exactly when it moved the bit from 0
  to 1. After an \<^verbatim>\<open>add(c)\<close>, whatever operations follow, as long as none of them clears
  the bit of \<^verbatim>\<open>c\<close> (no \<^verbatim>\<open>remove(c)\<close> and, for a precise allocation, no
  \<^verbatim>\<open>clearLowerTierPreciseCell\<close> of its index), the next \<^verbatim>\<open>add(c)\<close> returns false: on
  a cell that is not in the set, the first of a series of adds returns true and every
  later one returns false.
\<close>

theorem add_reports_transition:
  "fst (IsoCellSet_add s c) = (\<not> cellBit s c)
   \<and> cellBit (snd (IsoCellSet_add s c)) c
   \<and> (\<not> cellBit s c \<longrightarrow> fst (IsoCellSet_add s c))
   \<and> (\<forall>operations.
         (\<forall>operation \<in> set operations. \<not> clears c operation) \<longrightarrow>
         \<not> fst (IsoCellSet_add (performAll (snd (IsoCellSet_add s c)) operations) c))"
proof -
  have bit: "cellBit (snd (IsoCellSet_add s c)) c"
    by (simp add: add_sets_bit)
  have later: "\<not> fst (IsoCellSet_add (performAll (snd (IsoCellSet_add s c)) operations) c)"
    if "\<forall>operation \<in> set operations. \<not> clears c operation" for operations
    using performAll_keeps_bit [OF bit that] by (simp add: add_result)
  show ?thesis
    using bit later by (simp add: add_result)
qed

theorem add_reports_transition_witness:
  "fst (IsoCellSet_add IsoCellSet_empty (PreciseCell 2))
   \<and> \<not> clears (PreciseCell 2) (ClearLowerTierPreciseCell 3)
   \<and> \<not> clears (PreciseCell 2) (Remove (PreciseCell 1))
   \<and> \<not> fst (IsoCellSet_add
         (performAll (snd (IsoCellSet_add IsoCellSet_empty (PreciseCell 2)))
            [Add (PreciseCell 2), ClearLowerTierPreciseCell 3, Remove (PreciseCell 1),
             Add (BlockCell 1 2), Remove (BlockCell 1 2)])
         (PreciseCell 2))"
proof -
  have absent: "\<not> cellBit IsoCellSet_empty (PreciseCell 2)"
    by (simp add: cellBit_def IsoCellSet_empty_def emptyBitmap_def)
  have quiet:
    "\<forall>operation \<in> set [Add (PreciseCell 2), ClearLowerTierPreciseCell 3, Remove (PreciseCell 1),
                          Add (BlockCell 1 2), Remove (BlockCell 1 2)].
       \<not> clears (PreciseCell 2) operation"
    by simp
  note transition = add_reports_transition [of IsoCellSet_empty "PreciseCell 2"]
  have first: "fst (IsoCellSet_add IsoCellSet_empty (PreciseCell 2))"
    using transition [THEN conjunct2, THEN conjunct2, THEN conjunct1] absent by (rule mp)
  have later:
    "\<not> fst (IsoCellSet_add
         (performAll (snd (IsoCellSet_add IsoCellSet_empty (PreciseCell 2)))
            [Add (PreciseCell 2), ClearLowerTierPreciseCell 3, Remove (PreciseCell 1),
             Add (BlockCell 1 2), Remove (BlockCell 1 2)])
         (PreciseCell 2))"
    using transition [THEN conjunct2, THEN conjunct2, THEN conjunct2, THEN spec] quiet
    by (rule mp)
  have other: "\<not> clears (PreciseCell 2) (ClearLowerTierPreciseCell 3)"
    and another: "\<not> clears (PreciseCell 2) (Remove (PreciseCell 1))"
    by simp_all
  from first other another later show ?thesis
    by (intro conjI)
qed

text \<open>
  C4. \<^verbatim>\<open>remove(c)\<close> returns the previous bit of \<^verbatim>\<open>c\<close>, and the bit is 0 afterwards; so
  the call returns true exactly when it moved the bit from 1 to 0. For a cell of a block
  whose bitmap was never created the call returns false and the set is the one it was
  given: no bitmap is installed.
\<close>

theorem remove_reports_transition:
  "fst (IsoCellSet_remove s c) = cellBit s c
   \<and> \<not> cellBit (snd (IsoCellSet_remove s c)) c
   \<and> (m_bits s blockIndex = None \<longrightarrow>
        IsoCellSet_remove s (BlockCell blockIndex atomNumber) = (False, s))"
proof -
  have absent: "IsoCellSet_remove s (BlockCell blockIndex atomNumber) = (False, s)"
    if "m_bits s blockIndex = None"
    using that by (simp add: IsoCellSet_remove_def)
  show ?thesis
    using absent by (simp add: remove_result remove_clears_bit)
qed

theorem remove_reports_transition_witness:
  "m_bits IsoCellSet_empty 3 = None
   \<and> IsoCellSet_remove IsoCellSet_empty (BlockCell 3 1) = (False, IsoCellSet_empty)
   \<and> fst (IsoCellSet_remove (snd (IsoCellSet_add IsoCellSet_empty (BlockCell 3 1)))
            (BlockCell 3 1))"
proof -
  have absent: "m_bits IsoCellSet_empty 3 = None"
    by (simp add: IsoCellSet_empty_def)
  have present: "cellBit (snd (IsoCellSet_add IsoCellSet_empty (BlockCell 3 1))) (BlockCell 3 1)"
    by (simp add: add_sets_bit)
  show ?thesis
    using remove_reports_transition [of IsoCellSet_empty "BlockCell 3 1" 3 1]
          remove_reports_transition
            [of "snd (IsoCellSet_add IsoCellSet_empty (BlockCell 3 1))" "BlockCell 3 1" 3 1]
          absent present
    by simp
qed

subsection \<open>Claims about the enumerations\<close>

text \<open>
  C5. When the mutator is stopped (the assertion of the function holds) and every flagged
  block has its bitmap, \<^verbatim>\<open>forEachMarkedCell\<close> returns, and it calls the visitor on a
  cell exactly when either the cell is one of the marked cells of a block whose index is
  below the number of blocks, is set in the directory's marking-not-empty view and in
  \<^verbatim>\<open>m_blocksWithBits\<close>, and the atom's bit is set in the block's bitmap; or the cell is
  that of a precise allocation whose precise bit is set and which is marked. Where the
  heap passes each marked cell once, the visitor is called once on each such cell. In the
  scenario of the spec the visitor is called on atom 0 of block 0, atom 1 of block 1 and
  the precise allocation, and on nothing else.
\<close>

theorem forEachMarkedCell_reports_marked_members:
  "(isMutatorOrMutatorIsStopped (m_directory sub) \<longrightarrow> bitmapsPresent s \<longrightarrow>
      (\<exists>visited. forEachMarkedCell sub s = Inr visited
         \<and> (\<forall>cell kind. (cell, kind) \<in> set visited \<longleftrightarrow>
              (\<exists>blockIndex bits atomNumber.
                  blockIndex < length (m_blocks (m_directory sub))
                  \<and> markingNotEmptyBitsView (m_directory sub) blockIndex
                  \<and> m_blocksWithBits s blockIndex
                  \<and> m_bits s blockIndex = Some bits
                  \<and> (atomNumber, cell, kind)
                      \<in> set (markedCells (m_blocks (m_directory sub) ! blockIndex))
                  \<and> Bitmap_get bits atomNumber)
              \<or> (\<exists>allocation \<in> set (preciseAllocations sub).
                    Bitmap_get (m_lowerTierPreciseBits s) (lowerTierPreciseIndex allocation)
                    \<and> allocation_isMarked allocation
                    \<and> cell = allocation_cell allocation
                    \<and> kind = attributes_cellKind sub))
         \<and> (wellIndexed sub \<longrightarrow> yieldsEachCellOnce sub \<longrightarrow> distinct (map fst visited))))
   \<and> forEachMarkedCell scenarioSubspace scenarioSet
       = Inr [(BlockCell 0 0, ()), (BlockCell 1 1, ()), (PreciseCell 0, ())]"
proof (intro conjI impI)
  assume stopped: "isMutatorOrMutatorIsStopped (m_directory sub)"
    and present: "bitmapsPresent s"
  from forEachMarkedCell_visits [OF stopped present]
  obtain visited where
    result: "forEachMarkedCell sub s = Inr visited"
    and visited: "\<forall>cell kind. (cell, kind) \<in> set visited \<longleftrightarrow>
              (\<exists>blockIndex bits atomNumber.
                  blockIndex < length (m_blocks (m_directory sub))
                  \<and> markingNotEmptyBitsView (m_directory sub) blockIndex
                  \<and> m_blocksWithBits s blockIndex
                  \<and> m_bits s blockIndex = Some bits
                  \<and> (atomNumber, cell, kind)
                      \<in> set (markedCells (m_blocks (m_directory sub) ! blockIndex))
                  \<and> Bitmap_get bits atomNumber)
              \<or> (\<exists>allocation \<in> set (preciseAllocations sub).
                    Bitmap_get (m_lowerTierPreciseBits s) (lowerTierPreciseIndex allocation)
                    \<and> allocation_isMarked allocation
                    \<and> cell = allocation_cell allocation
                    \<and> kind = attributes_cellKind sub)"
    by blast
  have "distinct (map fst visited)" if "wellIndexed sub" "yieldsEachCellOnce sub"
    using stopped that(1) present that(2) result by (rule forEachMarkedCell_distinct)
  with result visited
  show "\<exists>visited. forEachMarkedCell sub s = Inr visited
         \<and> (\<forall>cell kind. (cell, kind) \<in> set visited \<longleftrightarrow>
              (\<exists>blockIndex bits atomNumber.
                  blockIndex < length (m_blocks (m_directory sub))
                  \<and> markingNotEmptyBitsView (m_directory sub) blockIndex
                  \<and> m_blocksWithBits s blockIndex
                  \<and> m_bits s blockIndex = Some bits
                  \<and> (atomNumber, cell, kind)
                      \<in> set (markedCells (m_blocks (m_directory sub) ! blockIndex))
                  \<and> Bitmap_get bits atomNumber)
              \<or> (\<exists>allocation \<in> set (preciseAllocations sub).
                    Bitmap_get (m_lowerTierPreciseBits s) (lowerTierPreciseIndex allocation)
                    \<and> allocation_isMarked allocation
                    \<and> cell = allocation_cell allocation
                    \<and> kind = attributes_cellKind sub))
         \<and> (wellIndexed sub \<longrightarrow> yieldsEachCellOnce sub \<longrightarrow> distinct (map fst visited))"
    by blast
next
  show "forEachMarkedCell scenarioSubspace scenarioSet
       = Inr [(BlockCell 0 0, ()), (BlockCell 1 1, ()), (PreciseCell 0, ())]"
    by (rule scenario_marked)
qed

theorem forEachMarkedCell_reports_marked_members_witness:
  "isMutatorOrMutatorIsStopped (m_directory scenarioSubspace)
   \<and> bitmapsPresent scenarioSet
   \<and> (\<exists>visited. forEachMarkedCell scenarioSubspace scenarioSet = Inr visited
         \<and> (BlockCell 1 1, ()) \<in> set visited
         \<and> (BlockCell 0 2, ()) \<notin> set visited)"
proof -
  note general =
    forEachMarkedCell_reports_marked_members
      [of scenarioSubspace scenarioSet, THEN conjunct1, rule_format,
       OF scenario_stopped scenario_bitmapsPresent]
  then obtain visited where
    result: "forEachMarkedCell scenarioSubspace scenarioSet = Inr visited"
    and visited: "\<And>cell kind. (cell, kind) \<in> set visited \<longleftrightarrow>
              (\<exists>blockIndex bits atomNumber.
                  blockIndex < length (m_blocks (m_directory scenarioSubspace))
                  \<and> markingNotEmptyBitsView (m_directory scenarioSubspace) blockIndex
                  \<and> m_blocksWithBits scenarioSet blockIndex
                  \<and> m_bits scenarioSet blockIndex = Some bits
                  \<and> (atomNumber, cell, kind)
                      \<in> set (markedCells (m_blocks (m_directory scenarioSubspace) ! blockIndex))
                  \<and> Bitmap_get bits atomNumber)
              \<or> (\<exists>allocation \<in> set (preciseAllocations scenarioSubspace).
                    Bitmap_get (m_lowerTierPreciseBits scenarioSet)
                      (lowerTierPreciseIndex allocation)
                    \<and> allocation_isMarked allocation
                    \<and> cell = allocation_cell allocation
                    \<and> kind = attributes_cellKind scenarioSubspace)"
    by blast
  have "visited = [(BlockCell 0 0, ()), (BlockCell 1 1, ()), (PreciseCell 0, ())]"
    using result scenario_marked by simp
  then have "(BlockCell 1 1, ()) \<in> set visited" and "(BlockCell 0 2, ()) \<notin> set visited"
    by simp_all
  with result scenario_stopped scenario_bitmapsPresent show ?thesis
    by blast
qed

text \<open>
  C6. On a well-formed heap, and a set whose flagged blocks have bitmaps and whose flags
  have no false negative, \<^verbatim>\<open>forEachLiveCell\<close> returns, and the cells it visits are
  exactly the cells whose bit is set in the set and which are live: live by the block's
  \<^verbatim>\<open>isLive\<close> among all the cells of the block, or by the allocation's \<^verbatim>\<open>isLive\<close>. In
  the scenario it visits atom 2 of block 0, a live member that is not marked and that
  \<^verbatim>\<open>forEachMarkedCell\<close> leaves out.
\<close>

theorem forEachLiveCell_visits_live_members:
  "(wellFormedSubspace sub \<longrightarrow> bitmapsPresent s \<longrightarrow> noFalseNegative s \<longrightarrow>
      (\<exists>visited. forEachLiveCell sub s = Inr visited
         \<and> (\<forall>cell. cell \<in> fst ` set visited \<longleftrightarrow> cellBit s cell \<and> cellLive sub cell)))
   \<and> forEachLiveCell scenarioSubspace scenarioSet
       = Inr [(BlockCell 0 0, ()), (BlockCell 0 2, ()), (BlockCell 1 1, ()), (PreciseCell 0, ())]
   \<and> forEachMarkedCell scenarioSubspace scenarioSet
       = Inr [(BlockCell 0 0, ()), (BlockCell 1 1, ()), (PreciseCell 0, ())]"
  using forEachLiveCell_members [of sub s] scenario_live scenario_marked by blast

theorem forEachLiveCell_visits_live_members_witness:
  "wellFormedSubspace scenarioSubspace
   \<and> bitmapsPresent scenarioSet
   \<and> noFalseNegative scenarioSet
   \<and> cellBit scenarioSet (BlockCell 0 2)
   \<and> cellLive scenarioSubspace (BlockCell 0 2)
   \<and> cellBit (snd (IsoCellSet_add scenarioSet (BlockCell 1 3))) (BlockCell 1 3)
   \<and> \<not> cellLive scenarioSubspace (BlockCell 1 3)
   \<and> (\<exists>visited. forEachLiveCell scenarioSubspace scenarioSet = Inr visited
         \<and> BlockCell 0 2 \<in> fst ` set visited)
   \<and> (\<exists>visited.
         forEachLiveCell scenarioSubspace (snd (IsoCellSet_add scenarioSet (BlockCell 1 3)))
           = Inr visited
         \<and> BlockCell 1 3 \<notin> fst ` set visited)"
proof -
  let ?s' = "snd (IsoCellSet_add scenarioSet (BlockCell 1 3))"
  have s': "?s' = perform scenarioSet (Add (BlockCell 1 3))"
    by simp
  have present': "bitmapsPresent ?s'"
    unfolding s' using scenario_bitmapsPresent by (rule bitmapsPresent_perform)
  have "bitmapsFlagged scenarioSet"
    by (simp add: bitmapsFlagged_def scenarioSet_def)
  then have "bitmapsFlagged ?s'"
    unfolding s' by (rule bitmapsFlagged_perform)
  then have conservative': "noFalseNegative ?s'"
    by (rule bitmapsFlagged_noFalseNegative)
  have member: "cellBit scenarioSet (BlockCell 0 2)"
    by (simp add: cellBit_def scenarioSet_def emptyBitmap_def)
  have live: "cellLive scenarioSubspace (BlockCell 0 2)"
    by (simp add: cellLive_def scenarioSubspace_def scenarioBlock0_def)
  have member': "cellBit ?s' (BlockCell 1 3)"
    by (simp add: add_sets_bit)
  have dead: "\<not> cellLive scenarioSubspace (BlockCell 1 3)"
    by (simp add: cellLive_def scenarioSubspace_def scenarioBlock1_def)
  from forEachLiveCell_visits_live_members
         [of scenarioSubspace scenarioSet, THEN conjunct1, rule_format,
          OF scenario_wellFormed scenario_bitmapsPresent scenario_noFalseNegative]
  have first: "\<exists>visited. forEachLiveCell scenarioSubspace scenarioSet = Inr visited
         \<and> BlockCell 0 2 \<in> fst ` set visited"
    using member live by blast
  from forEachLiveCell_visits_live_members
         [of scenarioSubspace ?s', THEN conjunct1, rule_format,
          OF scenario_wellFormed present' conservative']
  have second: "\<exists>visited. forEachLiveCell scenarioSubspace ?s' = Inr visited
         \<and> BlockCell 1 3 \<notin> fst ` set visited"
    using dead by blast
  from scenario_wellFormed scenario_bitmapsPresent scenario_noFalseNegative
       member live member' dead first second
  show ?thesis by (intro conjI)
qed

subsection \<open>Claims about the parallel enumeration\<close>

text \<open>
  C7. Take any number of workers, at least one, and any schedule of their actions on a
  heap with the mutator stopped and a set whose flagged blocks have bitmaps. The run
  does not stop at a null bitmap. When all workers have returned, exactly one of them has
  swept the precise allocations (the one that found the flag clear), and the calls of the
  visitor by all workers together are, with multiplicity, the calls of the sequential
  \<^verbatim>\<open>forEachMarkedCell\<close>: the marked member cells of C5. Where the heap passes each
  cell once, every such cell is visited exactly once in total, and no other cell is
  visited. Some schedule lets all workers return.
\<close>

theorem parallel_task_visits_each_cell_once:
  "0 < numberOfWorkers \<longrightarrow> isMutatorOrMutatorIsStopped (m_directory sub) \<longrightarrow>
   wellIndexed sub \<longrightarrow> bitmapsPresent s \<longrightarrow>
     (\<exists>t. runSchedule sub s schedule (newTask sub s numberOfWorkers) = Inr t
        \<and> (list_all hasReturned (workers t) \<longrightarrow>
             sweepers t = 1
             \<and> (\<exists>sequential. forEachMarkedCell sub s = Inr sequential
                   \<and> allVisits t = mset sequential
                   \<and> (yieldsEachCellOnce sub \<longrightarrow>
                        (\<forall>cell. count (image_mset fst (allVisits t)) cell
                                  = (if cell \<in> fst ` set sequential then 1 else 0))))))
     \<and> (\<exists>complete t. runSchedule sub s complete (newTask sub s numberOfWorkers) = Inr t
           \<and> list_all hasReturned (workers t))"
proof (intro impI conjI)
  assume workers: "0 < numberOfWorkers"
    and stopped: "isMutatorOrMutatorIsStopped (m_directory sub)"
    and indexed: "wellIndexed sub"
    and present: "bitmapsPresent s"
  from task_completes [OF indexed present]
  show "\<exists>complete t. runSchedule sub s complete (newTask sub s numberOfWorkers) = Inr t
           \<and> list_all hasReturned (workers t)" .
  from blocksVisitable_run [OF blocksVisitable_newTask [OF indexed present]]
  obtain t where run: "runSchedule sub s schedule (newTask sub s numberOfWorkers) = Inr t"
    by blast
  have "sweepers t = 1
          \<and> (\<exists>sequential. forEachMarkedCell sub s = Inr sequential
                \<and> allVisits t = mset sequential
                \<and> (yieldsEachCellOnce sub \<longrightarrow>
                     (\<forall>cell. count (image_mset fst (allVisits t)) cell
                               = (if cell \<in> fst ` set sequential then 1 else 0))))"
    if returned: "list_all hasReturned (workers t)"
  proof -
    from parallel_run_visits [OF workers stopped indexed present run returned]
    obtain sequential where
      result: "forEachMarkedCell sub s = Inr sequential"
      and visits: "allVisits t = mset sequential"
      and one: "sweepers t = 1"
      by blast
    have "count (image_mset fst (allVisits t)) cell
            = (if cell \<in> fst ` set sequential then 1 else 0)"
      if once: "yieldsEachCellOnce sub" for cell
    proof -
      from forEachMarkedCell_distinct [OF stopped indexed present once result]
      have "distinct (map fst sequential)" .
      then have "count (mset (map fst sequential)) cell
            = (if cell \<in> set (map fst sequential) then 1 else 0)"
        by (rule distinct_count_atmost_1 [THEN iffD1, rule_format])
      then show ?thesis
        by (simp add: visits)
    qed
    with result visits one show ?thesis
      by blast
  qed
  with run
  show "\<exists>t. runSchedule sub s schedule (newTask sub s numberOfWorkers) = Inr t
        \<and> (list_all hasReturned (workers t) \<longrightarrow>
             sweepers t = 1
             \<and> (\<exists>sequential. forEachMarkedCell sub s = Inr sequential
                   \<and> allVisits t = mset sequential
                   \<and> (yieldsEachCellOnce sub \<longrightarrow>
                        (\<forall>cell. count (image_mset fst (allVisits t)) cell
                                  = (if cell \<in> fst ` set sequential then 1 else 0)))))"
    by blast
qed

theorem parallel_task_visits_each_cell_once_witness:
  "runSchedule scenarioSubspace scenarioSet scenarioSchedule
     (newTask scenarioSubspace scenarioSet 2) = Inr scenarioReturned
   \<and> list_all hasReturned (workers scenarioReturned)
   \<and> yieldsEachCellOnce scenarioSubspace
   \<and> sweepers scenarioReturned = 1
   \<and> allVisits scenarioReturned
       = mset [(BlockCell 0 0, ()), (BlockCell 1 1, ()), (PreciseCell 0, ())]
   \<and> count (image_mset fst (allVisits scenarioReturned)) (BlockCell 1 1) = 1
   \<and> count (image_mset fst (allVisits scenarioReturned)) (BlockCell 0 2) = 0"
proof -
  have two: "0 < (2::nat)" by simp
  from parallel_task_visits_each_cell_once
         [of 2 scenarioSubspace scenarioSet scenarioSchedule, rule_format,
          OF two scenario_stopped scenario_wellIndexed scenario_bitmapsPresent,
          THEN conjunct1]
  obtain t where
    run: "runSchedule scenarioSubspace scenarioSet scenarioSchedule
            (newTask scenarioSubspace scenarioSet 2) = Inr t"
    and after: "list_all hasReturned (workers t) \<longrightarrow>
             sweepers t = 1
             \<and> (\<exists>sequential. forEachMarkedCell scenarioSubspace scenarioSet = Inr sequential
                   \<and> allVisits t = mset sequential
                   \<and> (yieldsEachCellOnce scenarioSubspace \<longrightarrow>
                        (\<forall>cell. count (image_mset fst (allVisits t)) cell
                                  = (if cell \<in> fst ` set sequential then 1 else 0))))"
    by blast
  from run scenario_run have t: "t = scenarioReturned"
    by simp
  from after scenario_returned
  obtain sequential where
    one: "sweepers scenarioReturned = 1"
    and result: "forEachMarkedCell scenarioSubspace scenarioSet = Inr sequential"
    and visits: "allVisits scenarioReturned = mset sequential"
    and counts: "yieldsEachCellOnce scenarioSubspace \<longrightarrow>
                (\<forall>cell. count (image_mset fst (allVisits scenarioReturned)) cell
                          = (if cell \<in> fst ` set sequential then 1 else 0))"
    unfolding t by blast
  from result scenario_marked
  have sequential: "sequential = [(BlockCell 0 0, ()), (BlockCell 1 1, ()), (PreciseCell 0, ())]"
    by simp
  from counts scenario_yieldsEachCellOnce
  have "count (image_mset fst (allVisits scenarioReturned)) cell
          = (if cell \<in> fst ` set sequential then 1 else 0)" for cell
    by blast
  from this [of "BlockCell 1 1"] this [of "BlockCell 0 2"]
  have "count (image_mset fst (allVisits scenarioReturned)) (BlockCell 1 1) = 1"
    and "count (image_mset fst (allVisits scenarioReturned)) (BlockCell 0 2) = 0"
    by (simp_all add: sequential)
  with scenario_run scenario_returned scenario_yieldsEachCellOnce one visits sequential
  show ?thesis by simp
qed

subsection \<open>Claims about adds that race\<close>

text \<open>
  C8. Take any threads adding any cells to a set whose flags cover its bitmaps, and any
  schedule of their actions, stopped at any point. No thread reads through a null bitmap
  pointer. Each slot has had at most one bitmap installed. Wherever a bitmap is installed
  the flag of its block is already set. When all threads have returned, the bit of every
  cell added is set, and a block that had no bitmap at the start and received an add has
  had exactly one bitmap installed. Some schedule lets all threads return.
\<close>

theorem racing_adds_install_one_bitmap:
  "bitmapsFlagged s0 \<longrightarrow>
     (\<exists>r. raceSchedule schedule (newRace s0 cells) = Inr r
        \<and> bitmapsFlagged (raceSet r)
        \<and> (\<forall>blockIndex. installations r blockIndex \<le> 1)
        \<and> (list_all hasAdded (adders r) \<longrightarrow>
             (\<forall>cell \<in> set cells. cellBit (raceSet r) cell)
             \<and> (\<forall>blockIndex atomNumber.
                   BlockCell blockIndex atomNumber \<in> set cells \<longrightarrow>
                   m_bits s0 blockIndex = None \<longrightarrow> installations r blockIndex = 1)))
     \<and> (\<exists>complete r. raceSchedule complete (newRace s0 cells) = Inr r
           \<and> list_all hasAdded (adders r))"
proof (intro impI conjI)
  assume flagged: "bitmapsFlagged s0"
  from race_completes [OF flagged]
  show "\<exists>complete r. raceSchedule complete (newRace s0 cells) = Inr r
           \<and> list_all hasAdded (adders r)" .
  show "\<exists>r. raceSchedule schedule (newRace s0 cells) = Inr r
        \<and> bitmapsFlagged (raceSet r)
        \<and> (\<forall>blockIndex. installations r blockIndex \<le> 1)
        \<and> (list_all hasAdded (adders r) \<longrightarrow>
             (\<forall>cell \<in> set cells. cellBit (raceSet r) cell)
             \<and> (\<forall>blockIndex atomNumber.
                   BlockCell blockIndex atomNumber \<in> set cells \<longrightarrow>
                   m_bits s0 blockIndex = None \<longrightarrow> installations r blockIndex = 1))"
  proof (rule racing_adds [where schedule = schedule and cells = cells, OF flagged])
    fix r
    assume "raceSchedule schedule (newRace s0 cells) = Inr r"
      and "bitmapsFlagged (raceSet r)"
      and "\<And>blockIndex. installations r blockIndex \<le> 1"
      and "\<And>cell. list_all hasAdded (adders r) \<Longrightarrow> cell \<in> set cells
              \<Longrightarrow> cellBit (raceSet r) cell"
      and "\<And>blockIndex atomNumber. list_all hasAdded (adders r)
              \<Longrightarrow> BlockCell blockIndex atomNumber \<in> set cells
              \<Longrightarrow> m_bits s0 blockIndex = None \<Longrightarrow> installations r blockIndex = 1"
    then show ?thesis
      by blast
  qed
qed

theorem racing_adds_install_one_bitmap_witness:
  "bitmapsFlagged IsoCellSet_empty
   \<and> m_bits IsoCellSet_empty 0 = None
   \<and> (\<exists>r. raceSchedule [0, 1, 0, 1, 0, 1, 0, 1]
              (newRace IsoCellSet_empty [BlockCell 0 1, BlockCell 0 2]) = Inr r
          \<and> list_all hasAdded (adders r)
          \<and> installations r 0 = 1
          \<and> m_blocksWithBits (raceSet r) 0
          \<and> cellBit (raceSet r) (BlockCell 0 1)
          \<and> cellBit (raceSet r) (BlockCell 0 2))"
proof -
  let ?cells = "[BlockCell 0 1, BlockCell 0 2]"
  have absent: "m_bits IsoCellSet_empty 0 = None"
    by (simp add: IsoCellSet_empty_def)
  from racing_adds_install_one_bitmap
         [of IsoCellSet_empty "[0, 1, 0, 1, 0, 1, 0, 1]" ?cells, rule_format,
          OF bitmapsFlagged_empty, THEN conjunct1]
  obtain r where
    run: "raceSchedule [0, 1, 0, 1, 0, 1, 0, 1] (newRace IsoCellSet_empty ?cells) = Inr r"
    and covered: "bitmapsFlagged (raceSet r)"
    and after: "list_all hasAdded (adders r) \<longrightarrow>
             (\<forall>cell \<in> set ?cells. cellBit (raceSet r) cell)
             \<and> (\<forall>blockIndex atomNumber.
                   BlockCell blockIndex atomNumber \<in> set ?cells \<longrightarrow>
                   m_bits IsoCellSet_empty blockIndex = None \<longrightarrow>
                   installations r blockIndex = 1)"
    by blast
  from scenario_race run have "adders r = [(Added True, BlockCell 0 1), (Added True, BlockCell 0 2)]"
    by auto
  then have added: "list_all hasAdded (adders r)"
    by (simp add: hasAdded_def)
  with after have bits: "\<forall>cell \<in> set ?cells. cellBit (raceSet r) cell"
    and one: "\<forall>blockIndex atomNumber.
                   BlockCell blockIndex atomNumber \<in> set ?cells \<longrightarrow>
                   m_bits IsoCellSet_empty blockIndex = None \<longrightarrow>
                   installations r blockIndex = 1"
    by blast+
  from bits have first: "cellBit (raceSet r) (BlockCell 0 1)"
    and second: "cellBit (raceSet r) (BlockCell 0 2)"
    by simp_all
  from one absent have installed: "installations r 0 = 1"
    by simp
  from first have "m_bits (raceSet r) 0 \<noteq> None"
    by (auto simp: cellBit_def split: option.splits)
  with covered have flag: "m_blocksWithBits (raceSet r) 0"
    by (simp add: bitmapsFlagged_def)
  from bitmapsFlagged_empty absent run added installed flag first second
  show ?thesis by blast
qed

subsection \<open>Claims about the non-empty block flags\<close>

text \<open>
  C9. In every set built from the empty set by \<^verbatim>\<open>add\<close>, \<^verbatim>\<open>remove\<close> and
  \<^verbatim>\<open>clearLowerTierPreciseCell\<close>, no flag of \<^verbatim>\<open>m_blocksWithBits\<close> is clear while the
  block's bitmap has a set bit; each operation keeps the inductive form of this (the
  flag is set once the bitmap exists). A flag may stay set over a bitmap that is all
  zero (after an add and a remove), and the invariant allows a flag set over an absent
  bitmap. The answers of \<^verbatim>\<open>contains\<close>, \<^verbatim>\<open>add\<close> and \<^verbatim>\<open>remove\<close> do not depend on
  the flags: only the enumerations read them.
\<close>

theorem blocksWithBits_conservative:
  "noFalseNegative (performAll IsoCellSet_empty operations)
   \<and> (bitmapsFlagged s \<longrightarrow>
        noFalseNegative s \<and> bitmapsFlagged (perform s operation)
        \<and> noFalseNegative (perform s operation))
   \<and> m_blocksWithBits
        (performAll IsoCellSet_empty [Add (BlockCell 0 1), Remove (BlockCell 0 1)]) 0
   \<and> (\<exists>bits.
         m_bits (performAll IsoCellSet_empty [Add (BlockCell 0 1), Remove (BlockCell 0 1)]) 0
           = Some bits
         \<and> (\<forall>atomNumber. \<not> bits atomNumber))
   \<and> noFalseNegative (IsoCellSet_empty\<lparr>m_blocksWithBits := (\<lambda>blockIndex. True)\<rparr>)
   \<and> IsoCellSet_contains (s\<lparr>m_blocksWithBits := flags\<rparr>) cell = IsoCellSet_contains s cell
   \<and> fst (IsoCellSet_add (s\<lparr>m_blocksWithBits := flags\<rparr>) cell) = fst (IsoCellSet_add s cell)
   \<and> fst (IsoCellSet_remove (s\<lparr>m_blocksWithBits := flags\<rparr>) cell)
        = fst (IsoCellSet_remove s cell)"
proof -
  have reachable: "noFalseNegative (performAll IsoCellSet_empty operations)"
    by (intro bitmapsFlagged_noFalseNegative bitmapsFlagged_performAll bitmapsFlagged_empty)
  have step: "noFalseNegative s \<and> bitmapsFlagged (perform s operation)
        \<and> noFalseNegative (perform s operation)" if "bitmapsFlagged s"
    using that by (simp add: bitmapsFlagged_noFalseNegative bitmapsFlagged_perform)
  have tolerated:
    "noFalseNegative (IsoCellSet_empty\<lparr>m_blocksWithBits := (\<lambda>blockIndex. True)\<rparr>)"
    by (simp add: noFalseNegative_def)
  from reachable step false_positive_after_remove tolerated perform_ignores_flags
  show ?thesis by blast
qed

theorem blocksWithBits_conservative_witness:
  "bitmapsFlagged scenarioSet
   \<and> noFalseNegative (perform scenarioSet (Add (BlockCell 1 3)))
   \<and> noFalseNegative (perform scenarioSet (Remove (BlockCell 1 1)))"
proof -
  have flagged: "bitmapsFlagged scenarioSet"
    by (simp add: bitmapsFlagged_def scenarioSet_def)
  note step = blocksWithBits_conservative
                [THEN conjunct2, THEN conjunct1, rule_format, OF flagged]
  from flagged step [of "Add (BlockCell 1 3)"] step [of "Remove (BlockCell 1 1)"]
  show ?thesis by (intro conjI) (elim conjE, assumption)+
qed




end
